theory Spec2Isabelle
  imports Main "HOL-Library.Sublist"
begin

section \<open>Python strings\<close>

text \<open>
  The program is \<open>src/ui_app/app.py\<close>. Python text is modelled as \<open>string\<close>; a character
  is an 8-bit \<open>char\<close>, so the model covers text whose code points are below 256.
\<close>

text \<open>\<open>s.startswith(p)\<close>.\<close>

definition startswith :: "string \<Rightarrow> string \<Rightarrow> bool" where
  "startswith s p = (take (length p) s = p)"

text \<open>
  \<open>s.split(sep)\<close> for a separator that is not empty: the separator is searched from the
  left and the occurrences found do not overlap. \<open>cur\<close> is the piece being read.
\<close>

function split_from :: "string \<Rightarrow> string \<Rightarrow> string \<Rightarrow> string list" where
  "split_from sep cur [] = [cur]"
| "split_from sep cur (c # cs) =
     (if sep \<noteq> [] \<and> startswith (c # cs) sep
      then cur # split_from sep [] (drop (length sep) (c # cs))
      else split_from sep (cur @ [c]) cs)"
  by pat_completeness auto
termination
  by (relation "measure (\<lambda>(sep, cur, s). length s)") auto

definition split :: "string \<Rightarrow> string \<Rightarrow> string list" where
  "split s sep = split_from sep [] s"

text \<open>
  \<open>str.isspace\<close> on one character, for code points below 256: tab, line feed, vertical
  tab, form feed, carriage return, the separators 0x1C to 0x1F, space, 0x85 and 0xA0.
\<close>

definition isspace :: "char \<Rightarrow> bool" where
  "isspace c = (c \<in> {CHR 0x09, CHR 0x0A, CHR 0x0B, CHR 0x0C, CHR 0x0D,
                      CHR 0x1C, CHR 0x1D, CHR 0x1E, CHR 0x1F, CHR 0x20, CHR 0x85, CHR 0xA0})"

text \<open>\<open>s.strip()\<close>.\<close>

definition strip :: "string \<Rightarrow> string" where
  "strip s = rev (dropWhile isspace (rev (dropWhile isspace s)))"

text \<open>
  \<open>s.splitlines()\<close>: the line boundaries below code point 256 are line feed, carriage
  return, carriage return followed by line feed, vertical tab, form feed, 0x1C, 0x1D, 0x1E
  and 0x85. The boundaries are not kept, and text that ends at a boundary has no empty
  last line, so the empty text has no line at all.
\<close>

definition is_linebreak :: "char \<Rightarrow> bool" where
  "is_linebreak c = (c \<in> {CHR 0x0A, CHR 0x0B, CHR 0x0C, CHR 0x0D,
                           CHR 0x1C, CHR 0x1D, CHR 0x1E, CHR 0x85})"

fun splitlines_from :: "string \<Rightarrow> string \<Rightarrow> string list" where
  "splitlines_from cur [] = (if cur = [] then [] else [cur])"
| "splitlines_from cur [c] = (if is_linebreak c then [cur] else [cur @ [c]])"
| "splitlines_from cur (c # d # cs) =
     (if c = CHR 0x0D \<and> d = CHR 0x0A then cur # splitlines_from [] cs
      else if is_linebreak c then cur # splitlines_from [] (d # cs)
      else splitlines_from (cur @ [c]) (d # cs))"

definition splitlines :: "string \<Rightarrow> string list" where
  "splitlines s = splitlines_from [] s"

text \<open>\<open>str(n)\<close> for an integer that is not negative: its decimal digits.\<close>

definition digit_char :: "nat \<Rightarrow> char" where
  "digit_char d = ''0123456789'' ! d"

function str_nat :: "nat \<Rightarrow> string" where
  "str_nat n = (if n < 10 then [digit_char n] else str_nat (n div 10) @ [digit_char (n mod 10)])"
  by pat_completeness auto
termination
  by (relation "measure id") auto

declare str_nat.simps [simp del]

text \<open>\<open>os.path.join(a, b)\<close> of \<open>posixpath\<close>.\<close>

definition os_path_join :: "string \<Rightarrow> string \<Rightarrow> string" where
  "os_path_join a b =
     (if startswith b ''/'' then b
      else if a = [] \<or> (a \<noteq> [] \<and> last a = CHR ''/'') then a @ b
      else a @ ''/'' @ b)"

section \<open>Exceptions\<close>

text \<open>
  An exception is its class and its description \<open>str(e)\<close>. \<open>except Exception\<close> catches
  the instances of \<open>Exception\<close> and lets the other instances of \<open>BaseException\<close> pass
  (a cancellation, a keyboard interrupt).
\<close>

datatype py_exc = PyExc (is_Exception: bool) (description: string)

abbreviation Exception :: "string \<Rightarrow> py_exc" where
  "Exception msg \<equiv> PyExc True msg"

definition IndexError :: py_exc where
  "IndexError = Exception ''list index out of range''"

text \<open>\<open>xs[i]\<close> on a list, for an index that is not negative.\<close>

definition index :: "'a list \<Rightarrow> nat \<Rightarrow> py_exc + 'a" where
  "index xs i = (if i < length xs then Inr (xs ! i) else Inl IndexError)"

section \<open>The artifact name\<close>

definition SCREENSHOT_DIR :: string where
  "SCREENSHOT_DIR = ''screenshots''"

definition ZIP_DIR :: string where
  "ZIP_DIR = ''zip_files''"

text \<open>The character class \<open>[:/\\?*&"<>|]\<close> of the substitution.\<close>

definition forbidden :: "char set" where
  "forbidden = {CHR '':'', CHR ''/'', CHR 0x5C, CHR ''?'', CHR ''*'', CHR ''&'', CHR 0x22,
                CHR ''<'', CHR ''>'', CHR ''|''}"

text \<open>\<open>re.sub(r'[:/\\?*&"<>|]', '_', s)\<close>.\<close>

definition re_sub_forbidden :: "string \<Rightarrow> string" where
  "re_sub_forbidden s = map (\<lambda>c. if c \<in> forbidden then CHR ''_'' else c) s"

text \<open>
  \<open>safe_name = re.sub(r'[:/\\?*&"<>|]', '_', url.split("//")[1])\<close>: the index raises
  when the address has no \<open>//\<close>.
\<close>

definition safe_name :: "string \<Rightarrow> py_exc + string" where
  "safe_name url =
     (case index (split url ''//'') 1 of
        Inl e \<Rightarrow> Inl e
      | Inr rest \<Rightarrow> Inr (re_sub_forbidden rest))"

text \<open>\<open>f"{index+1}_{safe_name}.png"\<close> and the path of the artifact.\<close>

definition artifact_file :: "nat \<Rightarrow> string \<Rightarrow> string" where
  "artifact_file i name = str_nat (i + 1) @ ''_'' @ name @ ''.png''"

definition screenshot_path :: "nat \<Rightarrow> string \<Rightarrow> string" where
  "screenshot_path i name = os_path_join SCREENSHOT_DIR (artifact_file i name)"

section \<open>The settling strategy\<close>

text \<open>
  The page of the browser is outside the program, so it is a parameter: a state \<open>'s\<close>
  and what the three things the program does to a page do to it.
  \<open>body_scrollHeight\<close> is \<open>document.body.scrollHeight\<close> read by \<open>page.evaluate\<close>, which
  raises when the read fails; \<open>window_scrollBy dy\<close> is \<open>window.scrollBy(0, dy)\<close>;
  \<open>after_sleep t\<close> is the page after \<open>asyncio.sleep(t)\<close>.
\<close>

record 's page =
  body_scrollHeight :: "'s \<Rightarrow> py_exc + nat"
  window_scrollBy :: "nat \<Rightarrow> 's \<Rightarrow> 's"
  after_sleep :: "nat \<Rightarrow> 's \<Rightarrow> 's"

text \<open>What \<open>scroll_to_bottom\<close> does to the page, in order.\<close>

datatype scroll_event = Measured nat | ScrolledBy nat | Slept nat

text \<open>The height of the viewport of \<open>viewport={"width": 1920, "height": 1080}\<close>.\<close>

definition viewport_height :: nat where
  "viewport_height = 1080"

text \<open>
  The body of \<open>for _ in range(max_scrolls)\<close>, with the number of iterations left:
  \<open>window.scrollBy(0, document.body.scrollHeight)\<close> is evaluated in the page, so the
  increment is the height of the page at that moment.
\<close>

fun scroll_loop ::
  "'s page \<Rightarrow> nat \<Rightarrow> nat \<Rightarrow> nat \<Rightarrow> 's \<Rightarrow> scroll_event list \<times> (py_exc + 's)" where
  "scroll_loop P pause_time 0 last_height s = ([], Inr s)"
| "scroll_loop P pause_time (Suc n) last_height s =
     (case body_scrollHeight P s of
        Inl e \<Rightarrow> ([], Inl e)
      | Inr dy \<Rightarrow>
          (let s1 = window_scrollBy P dy s;
               s2 = after_sleep P pause_time s1
           in case body_scrollHeight P s2 of
                Inl e \<Rightarrow> ([ScrolledBy dy, Slept pause_time], Inl e)
              | Inr new_height \<Rightarrow>
                  if new_height = last_height
                  then ([ScrolledBy dy, Slept pause_time, Measured new_height], Inr s2)
                  else (case scroll_loop P pause_time n new_height s2 of
                          (tr, r) \<Rightarrow>
                            ([ScrolledBy dy, Slept pause_time, Measured new_height] @ tr, r))))"

definition scroll_to_bottom ::
  "'s page \<Rightarrow> nat \<Rightarrow> nat \<Rightarrow> 's \<Rightarrow> scroll_event list \<times> (py_exc + 's)" where
  "scroll_to_bottom P pause_time max_scrolls s =
     (case body_scrollHeight P s of
        Inl e \<Rightarrow> ([], Inl e)
      | Inr last_height \<Rightarrow>
          (case scroll_loop P pause_time max_scrolls last_height s of
             (tr, r) \<Rightarrow> (Measured last_height # tr, r)))"

text \<open>The default arguments \<open>pause_time=1, max_scrolls=30\<close>.\<close>

definition settle :: "'s page \<Rightarrow> 's \<Rightarrow> scroll_event list \<times> (py_exc + 's)" where
  "settle P s = scroll_to_bottom P 1 30 s"

text \<open>The heights measured, the increments scrolled by and the pauses of a trace.\<close>

fun measurements :: "scroll_event list \<Rightarrow> nat list" where
  "measurements [] = []"
| "measurements (Measured h # tr) = h # measurements tr"
| "measurements (_ # tr) = measurements tr"

fun scrolls :: "scroll_event list \<Rightarrow> nat list" where
  "scrolls [] = []"
| "scrolls (ScrolledBy dy # tr) = dy # scrolls tr"
| "scrolls (_ # tr) = scrolls tr"

fun pauses :: "scroll_event list \<Rightarrow> nat list" where
  "pauses [] = []"
| "pauses (Slept t # tr) = t # pauses tr"
| "pauses (_ # tr) = pauses tr"

text \<open>
  The trace of the iterations that scroll by the given increments and measure the
  given heights, each pausing for \<open>p\<close>.
\<close>

definition rounds :: "nat \<Rightarrow> (nat \<times> nat) list \<Rightarrow> scroll_event list" where
  "rounds p xs = concat (map (\<lambda>(dy, h). [ScrolledBy dy, Slept p, Measured h]) xs)"

text \<open>
  Pages to run the strategy on. The state is the number of pauses so far: a page whose
  height is given at each of them, and which scrolling does not change.
\<close>

definition timed_page :: "(nat \<Rightarrow> nat) \<Rightarrow> nat page" where
  "timed_page h = \<lparr>body_scrollHeight = (\<lambda>t. Inr (h t)),
                   window_scrollBy = (\<lambda>dy t. t),
                   after_sleep = (\<lambda>secs t. Suc t)\<rparr>"

definition constant_page :: "nat \<Rightarrow> nat page" where
  "constant_page h = timed_page (\<lambda>t. h)"

definition shrinking_page :: "nat page" where
  "shrinking_page = timed_page (\<lambda>t. if t = 0 then 100 else 50)"

section \<open>The capture task\<close>

text \<open>
  The line of the log a task returns: \<open>Success url\<close> is the text
  \<open>f"\<dots> Success: {url}"\<close>, \<open>ErrorOn url m\<close> is \<open>f"\<dots> Error on {url}: {m}"\<close>.
\<close>

datatype log_line = Success string | ErrorOn string string

text \<open>
  What the browser does for one task: for each call that the task awaits, the exception
  it raises, if any. \<open>goto_result\<close> is the page once \<open>page.goto\<close> has returned and the
  delay after it has passed. \<open>finish_time\<close> is the moment the task is done.
  The user agent and the length of the delay are drawn at random and decide nothing here.
\<close>

record 's task_env =
  new_context_exc :: "py_exc option"
  new_page_exc :: "py_exc option"
  route_exc :: "py_exc option"
  goto_result :: "py_exc + 's"
  the_page :: "'s page"
  screenshot_exc :: "py_exc option"
  close_exc :: "py_exc option"
  finish_time :: nat

text \<open>The body of \<open>try\<close>: it gives the name of the file written in the directory.\<close>

definition try_body :: "'s task_env \<Rightarrow> string \<Rightarrow> nat \<Rightarrow> py_exc + string" where
  "try_body env url i =
     (case new_context_exc env of Some e \<Rightarrow> Inl e | None \<Rightarrow>
     (case new_page_exc env of Some e \<Rightarrow> Inl e | None \<Rightarrow>
     (case route_exc env of Some e \<Rightarrow> Inl e | None \<Rightarrow>
     (case goto_result env of Inl e \<Rightarrow> Inl e | Inr s \<Rightarrow>
     (case snd (settle (the_page env) s) of Inl e \<Rightarrow> Inl e | Inr s' \<Rightarrow>
     (case safe_name url of Inl e \<Rightarrow> Inl e | Inr name \<Rightarrow>
     (case screenshot_exc env of Some e \<Rightarrow> Inl e | None \<Rightarrow>
        Inr (artifact_file i name))))))))"

text \<open>
  The handler \<open>except Exception as e\<close>: \<open>str(e).splitlines()[0]\<close> is an index into the
  lines of the description.
\<close>

definition handler :: "string \<Rightarrow> py_exc \<Rightarrow> py_exc + log_line" where
  "handler url e =
     (if is_Exception e
      then (case index (splitlines (description e)) 0 of
              Inl e' \<Rightarrow> Inl e'
            | Inr error_message \<Rightarrow> Inr (ErrorOn url error_message))
      else Inl e)"

text \<open>
  The task: \<open>outcome\<close> is the line it returns, or the exception that leaves it;
  \<open>written\<close> is the file it has written; \<open>context_closed\<close> says that \<open>context.close()\<close>
  was called. An exception of \<open>finally\<close> replaces what the task was about to return.
\<close>

record task_result =
  outcome :: "py_exc + log_line"
  written :: "string option"
  context_closed :: bool

definition take_screenshot :: "'s task_env \<Rightarrow> string \<Rightarrow> nat \<Rightarrow> task_result" where
  "take_screenshot env url i =
     (let body = try_body env url i;
          context = (new_context_exc env = None);
          ret = (case body of Inr file \<Rightarrow> Inr (Success url) | Inl e \<Rightarrow> handler url e);
          fin = (if context then close_exc env else None)
      in \<lparr>outcome = (case fin of Some e \<Rightarrow> Inl e | None \<Rightarrow> ret),
          written = (case body of Inr file \<Rightarrow> Some file | Inl e \<Rightarrow> None),
          context_closed = context\<rparr>)"

text \<open>
  A browser that does all that it is asked, on a page of constant height, and the same
  browser when \<open>page.goto\<close> raises a given exception.
\<close>

definition obliging_env :: "nat task_env" where
  "obliging_env =
     \<lparr>new_context_exc = None, new_page_exc = None, route_exc = None, goto_result = Inr 0,
      the_page = constant_page 1080, screenshot_exc = None, close_exc = None,
      finish_time = 0\<rparr>"

definition goto_failing_env :: "py_exc \<Rightarrow> nat task_env" where
  "goto_failing_env e = obliging_env\<lparr>goto_result := Inl e\<rparr>"

section \<open>The state of the application\<close>

text \<open>
  The files: a directory is the map from the names of its entries to what they hold, and
  the file system is the map from the paths of the directories to them. The two
  directories of the program are made at lines 16 and 17 of every run, and the program
  puts nothing but directories at their paths.
\<close>

datatype content = Image | Archive "string set"

type_synonym directory = "string \<rightharpoonup> content"

type_synonym filesystem = "string \<rightharpoonup> directory"

text \<open>What the user sees, and the archives made, in order.\<close>

datatype event =
    Info_starting_browser
  | Log_markdown "log_line list"
  | Progress nat nat
  | Success_all_completed
  | Toast_flushed
  | Success_loaded nat
  | Error_no_name_column
  | Error_reading_csv py_exc
  | Warning_more_than_10
  | Progress_starting
  | Header_results
  | Archive_made string "string set"
  | Warning_no_screenshots
  | Download_button string
  | Final_log "log_line list"

text \<open>\<open>st.session_state\<close>, the file system and the events so far.\<close>

record app_state =
  logs :: "log_line list"
  processing_complete :: bool
  zip_path :: "string option"
  fs :: filesystem
  events :: "event list"

definition FileExistsError :: py_exc where
  "FileExistsError = Exception ''[Errno 17] File exists''"

definition FileNotFoundError :: py_exc where
  "FileNotFoundError = Exception ''[Errno 2] No such file or directory''"

text \<open>\<open>os.path.exists\<close>, \<open>shutil.rmtree\<close>, \<open>os.makedirs\<close> and \<open>os.scandir\<close> on a directory.\<close>

definition path_exists :: "filesystem \<Rightarrow> string \<Rightarrow> bool" where
  "path_exists f d = (f d \<noteq> None)"

definition rmtree :: "filesystem \<Rightarrow> string \<Rightarrow> filesystem" where
  "rmtree f d = f(d := None)"

definition makedirs :: "filesystem \<Rightarrow> string \<Rightarrow> bool \<Rightarrow> py_exc + filesystem" where
  "makedirs f d exist_ok =
     (if path_exists f d then (if exist_ok then Inr f else Inl FileExistsError)
      else Inr (f(d \<mapsto> Map.empty)))"

definition scandir :: "filesystem \<Rightarrow> string \<Rightarrow> py_exc + string set" where
  "scandir f d = (case f d of None \<Rightarrow> Inl FileNotFoundError | Some entries \<Rightarrow> Inr (dom entries))"

text \<open>Lines 16 and 17.\<close>

definition module_setup :: "app_state \<Rightarrow> py_exc + app_state" where
  "module_setup st =
     (case makedirs (fs st) SCREENSHOT_DIR True of
        Inl e \<Rightarrow> Inl e
      | Inr f1 \<Rightarrow>
          (case makedirs f1 ZIP_DIR True of
             Inl e \<Rightarrow> Inl e
           | Inr f2 \<Rightarrow> Inr (st\<lparr>fs := f2\<rparr>)))"

text \<open>The state of a session that starts (lines 137 to 142), on given files.\<close>

definition initial_state :: "filesystem \<Rightarrow> app_state" where
  "initial_state f =
     \<lparr>logs = [], processing_complete = False, zip_path = None, fs = f, events = []\<rparr>"

text \<open>The state when a batch has just completed, on given files.\<close>

definition after_batch :: "filesystem \<Rightarrow> app_state" where
  "after_batch f = (initial_state f)\<lparr>processing_complete := True\<rparr>"

text \<open>The two directories, empty, and nothing else.\<close>

definition empty_dirs :: filesystem where
  "empty_dirs = [SCREENSHOT_DIR \<mapsto> Map.empty, ZIP_DIR \<mapsto> Map.empty]"

text \<open>The names of the entries of a directory, none when the directory is not there.\<close>

definition dir_entries :: "filesystem \<Rightarrow> string \<Rightarrow> string set" where
  "dir_entries f d = (case f d of None \<Rightarrow> {} | Some entries \<Rightarrow> dom entries)"

section \<open>The batch processor\<close>

text \<open>
  \<open>page.screenshot(path=...)\<close> writes the file into the screenshot directory, which it
  makes when it is not there.
\<close>

definition write_artifact :: "filesystem \<Rightarrow> string \<Rightarrow> filesystem" where
  "write_artifact f name =
     f(SCREENSHOT_DIR \<mapsto>
        (case f SCREENSHOT_DIR of None \<Rightarrow> Map.empty | Some entries \<Rightarrow> entries)(name \<mapsto> Image))"

text \<open>
  \<open>asyncio.as_completed\<close> gives the tasks in the order in which they finish: the tasks
  sorted by the moment they are done.
\<close>

definition as_completed :: "(nat \<times> task_result) list \<Rightarrow> (nat \<Rightarrow> nat) \<Rightarrow> (nat \<times> task_result) list" where
  "as_completed tasks done_at = sort_key (\<lambda>(i, t). done_at i) tasks"

text \<open>
  The loop \<open>for i, future in enumerate(asyncio.as_completed(tasks))\<close>. A task that is done
  has written its file; \<open>await future\<close> raises the exception that left the task, and
  that ends the loop.
\<close>

fun batch_loop ::
  "nat \<Rightarrow> nat \<Rightarrow> (nat \<times> task_result) list \<Rightarrow> app_state \<Rightarrow> py_exc option \<times> app_state" where
  "batch_loop total_tasks i [] st = (None, st)"
| "batch_loop total_tasks i ((k, t) # futures) st =
     (let st1 = (case written t of
                   None \<Rightarrow> st
                 | Some name \<Rightarrow> st\<lparr>fs := write_artifact (fs st) name\<rparr>)
      in case outcome t of
           Inl e \<Rightarrow> (Some e, st1)
         | Inr result \<Rightarrow>
             (let lg = logs st1 @ [result]
              in batch_loop total_tasks (i + 1) futures
                   (st1\<lparr>logs := lg,
                        events := events st1 @ [Log_markdown lg, Progress (i + 1) total_tasks]\<rparr>)))"

text \<open>
  Line 97: \<open>tasks = [take_screenshot(browser, url, index) for index, url in enumerate(urls)]\<close>,
  each task with its index.
\<close>

definition batch_tasks :: "(nat \<Rightarrow> 's task_env) \<Rightarrow> string list \<Rightarrow> (nat \<times> task_result) list" where
  "batch_tasks envs urls = map (\<lambda>(i, url). (i, take_screenshot (envs i) url i)) (enumerate 0 urls)"

text \<open>The files that the tasks write.\<close>

fun files_written :: "(nat \<times> task_result) list \<Rightarrow> string list" where
  "files_written [] = []"
| "files_written ((i, t) # ts) =
     (case written t of None \<Rightarrow> files_written ts | Some name \<Rightarrow> name # files_written ts)"

text \<open>
  \<open>run_batch_processor\<close>: \<open>launch_exc\<close> and \<open>browser_close_exc\<close> are the exceptions that
  launching and closing the browser raise, if any, and \<open>envs i\<close> is what the browser does
  for the task of index \<open>i\<close>. The result is the exception that leaves the function, if
  any, and the state then.
\<close>

definition run_batch_processor ::
  "py_exc option \<Rightarrow> py_exc option \<Rightarrow> (nat \<Rightarrow> 's task_env) \<Rightarrow> string list \<Rightarrow> app_state
     \<Rightarrow> py_exc option \<times> app_state" where
  "run_batch_processor launch_exc browser_close_exc envs urls st =
     (let st1 = st\<lparr>logs := [], events := events st @ [Info_starting_browser]\<rparr>
      in case launch_exc of
           Some e \<Rightarrow> (Some e, st1)
         | None \<Rightarrow>
             (let tasks = batch_tasks envs urls;
                  total_tasks = length tasks
              in case batch_loop total_tasks 0
                        (as_completed tasks (\<lambda>i. finish_time (envs i))) st1 of
                   (Some e, st2) \<Rightarrow> (Some e, st2)
                 | (None, st2) \<Rightarrow>
                     (case browser_close_exc of
                        Some e \<Rightarrow> (Some e, st2)
                      | None \<Rightarrow>
                          (None, st2\<lparr>events := events st2 @ [Success_all_completed],
                                     processing_complete := True\<rparr>))))"

text \<open>The counts of the progress events among the events.\<close>

fun completed_counts :: "event list \<Rightarrow> nat list" where
  "completed_counts [] = []"
| "completed_counts (Progress c n # es) = c # completed_counts es"
| "completed_counts (_ # es) = completed_counts es"

fun total_counts :: "event list \<Rightarrow> nat list" where
  "total_counts [] = []"
| "total_counts (Progress c n # es) = n # total_counts es"
| "total_counts (_ # es) = total_counts es"

text \<open>A task returns its line: no exception leaves it.\<close>

definition returned :: "task_result \<Rightarrow> bool" where
  "returned t = (case outcome t of Inl e \<Rightarrow> False | Inr l \<Rightarrow> True)"

definition task_returns :: "'s task_env \<Rightarrow> string \<Rightarrow> nat \<Rightarrow> bool" where
  "task_returns env url i = returned (take_screenshot env url i)"

section \<open>Flushing\<close>

text \<open>The body of \<open>for directory in [SCREENSHOT_DIR, ZIP_DIR]\<close>.\<close>

definition flush_directory :: "filesystem \<Rightarrow> string \<Rightarrow> py_exc + filesystem" where
  "flush_directory f directory =
     makedirs (if path_exists f directory then rmtree f directory else f) directory False"

definition flush_files :: "app_state \<Rightarrow> py_exc + app_state" where
  "flush_files st =
     (case flush_directory (fs st) SCREENSHOT_DIR of
        Inl e \<Rightarrow> Inl e
      | Inr f1 \<Rightarrow>
          (case flush_directory f1 ZIP_DIR of
             Inl e \<Rightarrow> Inl e
           | Inr f2 \<Rightarrow>
               Inr (st\<lparr>fs := f2, logs := [], processing_complete := False, zip_path := None,
                       events := events st @ [Toast_flushed]\<rparr>)))"

text \<open>
  Lines 194 to 203, when the start button is pressed: the flush, the placeholders and the
  batch. (The run of the script that follows is \<open>script_run\<close> below.)
\<close>

definition start_processing ::
  "py_exc option \<Rightarrow> py_exc option \<Rightarrow> (nat \<Rightarrow> 's task_env) \<Rightarrow> string list \<Rightarrow> app_state
     \<Rightarrow> py_exc option \<times> app_state" where
  "start_processing launch_exc browser_close_exc envs urls st =
     (case flush_files st of
        Inl e \<Rightarrow> (Some e, st)
      | Inr st1 \<Rightarrow>
          run_batch_processor launch_exc browser_close_exc envs urls
            (st1\<lparr>processing_complete := False,
                 events := events st1 @ [Progress_starting]\<rparr>))"

section \<open>The input area\<close>

text \<open>
  What \<open>pd.read_csv\<close> gives: an exception, or the columns of the table by name, a missing
  value being \<open>None\<close>. The values of the column are taken as text.
\<close>

datatype csv_read = Unreadable py_exc | DataFrame "(string \<times> string option list) list"

text \<open>\<open>Series.dropna()\<close>.\<close>

fun dropna :: "'a option list \<Rightarrow> 'a list" where
  "dropna [] = []"
| "dropna (None # xs) = dropna xs"
| "dropna (Some x # xs) = x # dropna xs"

text \<open>\<open>Series.unique()\<close>: the values in the order in which they first appear.\<close>

fun unique_from :: "'a list \<Rightarrow> 'a list \<Rightarrow> 'a list" where
  "unique_from seen [] = []"
| "unique_from seen (x # xs) =
     (if x \<in> set seen then unique_from seen xs else x # unique_from (seen @ [x]) xs)"

definition unique :: "'a list \<Rightarrow> 'a list" where
  "unique xs = unique_from [] xs"

text \<open>Lines 154 to 163: the addresses of an uploaded file, and what is shown.\<close>

definition csv_handler :: "csv_read \<Rightarrow> string list \<times> event list" where
  "csv_handler uploaded_file =
     (case uploaded_file of
        Unreadable e \<Rightarrow> ([], [Error_reading_csv e])
      | DataFrame columns \<Rightarrow>
          (case map_of columns ''name'' of
             None \<Rightarrow> ([], [Error_no_name_column])
           | Some col \<Rightarrow>
               (let urls_to_process = map (\<lambda>url. ''https://'' @ url) (unique (dropna col))
                in (urls_to_process, [Success_loaded (length urls_to_process)]))))"

text \<open>Lines 179 to 183: one line of the pasted text.\<close>

definition add_scheme :: "string \<Rightarrow> string" where
  "add_scheme line =
     (if \<not> (startswith line ''http://'' \<or> startswith line ''https://'')
      then ''https://'' @ line else line)"

text \<open>
  Line 172: \<open>[line.strip() for line in url_input.split('\n') if line.strip()]\<close>.
\<close>

definition pasted_lines :: "string \<Rightarrow> string list" where
  "pasted_lines url_input =
     map strip (filter (\<lambda>line. strip line \<noteq> []) (split url_input [CHR 0x0A]))"

text \<open>Lines 171 to 183: the addresses of a pasted text that is not empty.\<close>

definition paste_handler :: "string \<Rightarrow> string list \<times> event list" where
  "paste_handler url_input =
     (let lines = pasted_lines url_input
      in if length lines > 10
         then (map add_scheme (take 10 lines), [Warning_more_than_10])
         else (map add_scheme lines, []))"

text \<open>
  Lines 145 to 183: \<open>urls_to_process\<close> after the two tabs. A pasted text that is not
  empty replaces what the file gave.
\<close>

definition input_area :: "csv_read option \<Rightarrow> string \<Rightarrow> string list \<times> event list" where
  "input_area uploaded_file url_input =
     (case (case uploaded_file of None \<Rightarrow> ([], []) | Some f \<Rightarrow> csv_handler f) of
        (urls1, ev1) \<Rightarrow>
          (if url_input \<noteq> []
           then (case paste_handler url_input of (urls2, ev2) \<Rightarrow> (urls2, ev1 @ ev2))
           else (urls1, ev1)))"

section \<open>The results and the archive\<close>

text \<open>\<open>os.path.basename\<close> and \<open>os.path.dirname\<close> of \<open>posixpath\<close>.\<close>

definition basename :: "string \<Rightarrow> string" where
  "basename p = rev (takeWhile (\<lambda>c. c \<noteq> CHR ''/'') (rev p))"

definition dirname :: "string \<Rightarrow> string" where
  "dirname p =
     (let head = rev (dropWhile (\<lambda>c. c \<noteq> CHR ''/'') (rev p))
      in if head \<noteq> [] \<and> \<not> list_all (\<lambda>c. c = CHR ''/'') head
         then rev (dropWhile (\<lambda>c. c = CHR ''/'') (rev head))
         else head)"

text \<open>
  \<open>shutil.make_archive(base_name, 'zip', root_dir)\<close>: the archive of the entries of
  \<open>root_dir\<close>, written at \<open>base_name + ".zip"\<close>, in a directory that is made when it is
  not there.
\<close>

definition make_archive :: "filesystem \<Rightarrow> string \<Rightarrow> string \<Rightarrow> py_exc + filesystem" where
  "make_archive f base_name root_dir =
     (case f root_dir of
        None \<Rightarrow> Inl FileNotFoundError
      | Some entries \<Rightarrow>
          Inr (f(dirname base_name \<mapsto>
                 (case f (dirname base_name) of None \<Rightarrow> Map.empty | Some d \<Rightarrow> d)
                   (basename base_name @ ''.zip'' \<mapsto> Archive (dom entries)))))"

text \<open>\<open>open(path, "rb")\<close>.\<close>

definition open_rb :: "filesystem \<Rightarrow> string \<Rightarrow> py_exc + content" where
  "open_rb f path =
     (case f (dirname path) of
        None \<Rightarrow> Inl FileNotFoundError
      | Some d \<Rightarrow> (case d (basename path) of None \<Rightarrow> Inl FileNotFoundError | Some c \<Rightarrow> Inr c))"

text \<open>The truth value of \<open>st.session_state.zip_path\<close>.\<close>

definition truthy :: "string option \<Rightarrow> bool" where
  "truthy p = (case p of None \<Rightarrow> False | Some s \<Rightarrow> s \<noteq> [])"

text \<open>Lines 212 to 218.\<close>

definition create_zip :: "app_state \<Rightarrow> py_exc + app_state" where
  "create_zip st =
     (if \<not> truthy (zip_path st)
      then (case scandir (fs st) SCREENSHOT_DIR of
              Inl e \<Rightarrow> Inl e
            | Inr entries \<Rightarrow>
                if entries \<noteq> {}
                then (let zip_filename = os_path_join ZIP_DIR ''screenshots''
                      in case make_archive (fs st) zip_filename SCREENSHOT_DIR of
                           Inl e \<Rightarrow> Inl e
                         | Inr f \<Rightarrow>
                             Inr (st\<lparr>fs := f, zip_path := Some (zip_filename @ ''.zip''),
                                     events := events st @
                                       [Archive_made (zip_filename @ ''.zip'') entries]\<rparr>))
                else Inr (st\<lparr>events := events st @ [Warning_no_screenshots]\<rparr>))
      else Inr st)"

text \<open>Lines 221 to 230.\<close>

definition download_area :: "app_state \<Rightarrow> py_exc + app_state" where
  "download_area st =
     (case zip_path st of
        None \<Rightarrow> Inr st
      | Some p \<Rightarrow>
          if p \<noteq> []
          then (case open_rb (fs st) p of
                  Inl e \<Rightarrow> Inl e
                | Inr fp \<Rightarrow> Inr (st\<lparr>events := events st @ [Download_button p]\<rparr>))
          else Inr st)"

text \<open>Lines 208 to 236.\<close>

definition results_section :: "app_state \<Rightarrow> py_exc + app_state" where
  "results_section st =
     (if processing_complete st
      then (case create_zip (st\<lparr>events := events st @ [Header_results]\<rparr>) of
              Inl e \<Rightarrow> Inl e
            | Inr st1 \<Rightarrow>
                (case download_area st1 of
                   Inl e \<Rightarrow> Inl e
                 | Inr st2 \<Rightarrow>
                     Inr (if logs st2 \<noteq> []
                          then st2\<lparr>events := events st2 @ [Final_log (logs st2)]\<rparr>
                          else st2)))
      else Inr st)"

text \<open>
  One run of the script in which no button is pressed: lines 16 and 17, the input area,
  and the results.
\<close>

definition script_run :: "csv_read option \<Rightarrow> string \<Rightarrow> app_state \<Rightarrow> py_exc + app_state" where
  "script_run uploaded_file url_input st =
     (case module_setup st of
        Inl e \<Rightarrow> Inl e
      | Inr st1 \<Rightarrow>
          results_section
            (st1\<lparr>events := events st1 @ snd (input_area uploaded_file url_input)\<rparr>))"

text \<open>The script run again and again on the same inputs, as each download makes it run.\<close>

fun reruns :: "nat \<Rightarrow> csv_read option \<Rightarrow> string \<Rightarrow> app_state \<Rightarrow> py_exc + app_state" where
  "reruns 0 uploaded_file url_input st = Inr st"
| "reruns (Suc n) uploaded_file url_input st =
     (case script_run uploaded_file url_input st of
        Inl e \<Rightarrow> Inl e
      | Inr st' \<Rightarrow> reruns n uploaded_file url_input st')"

text \<open>The archives made, the warnings and the download buttons among the events.\<close>

fun archives_made :: "event list \<Rightarrow> (string \<times> string set) list" where
  "archives_made [] = []"
| "archives_made (Archive_made p entries # es) = (p, entries) # archives_made es"
| "archives_made (_ # es) = archives_made es"

fun warnings_shown :: "event list \<Rightarrow> nat" where
  "warnings_shown [] = 0"
| "warnings_shown (Warning_no_screenshots # es) = Suc (warnings_shown es)"
| "warnings_shown (_ # es) = warnings_shown es"

fun downloads_offered :: "event list \<Rightarrow> string list" where
  "downloads_offered [] = []"
| "downloads_offered (Download_button p # es) = p # downloads_offered es"
| "downloads_offered (_ # es) = downloads_offered es"

section \<open>Facts about the strings\<close>

lemma split_from_nonempty: "split_from sep cur s \<noteq> []"
  by (induction sep cur s rule: split_from.induct) auto

lemma re_sub_forbidden_clean: "c \<in> set (re_sub_forbidden s) \<Longrightarrow> c \<notin> forbidden"
  by (auto simp: re_sub_forbidden_def forbidden_def)

lemma startswith_append: "startswith s p \<Longrightarrow> s = p @ drop (length p) s"
  unfolding startswith_def by (metis append_take_drop_id)

lemma split_http: "split (''http://'' @ r) ''//'' = ''http:'' # split_from ''//'' [] r"
  by (simp add: split_def startswith_def)

lemma split_https: "split (''https://'' @ r) ''//'' = ''https:'' # split_from ''//'' [] r"
  by (simp add: split_def startswith_def)

lemma safe_name_defined:
  assumes "startswith url ''http://'' \<or> startswith url ''https://''"
  shows "\<exists>rest. safe_name url = Inr (re_sub_forbidden rest)"
proof -
  from assms obtain p r where u: "url = p @ r" and p: "p = ''http://'' \<or> p = ''https://''"
    using startswith_append by blast
  obtain x xs where x: "split_from ''//'' [] r = x # xs"
    using split_from_nonempty by (cases "split_from ''//'' [] r") auto
  from p show ?thesis
  proof
    assume "p = ''http://''"
    then have "split url ''//'' = ''http:'' # x # xs" using u x split_http by simp
    then show ?thesis by (auto simp add: safe_name_def index_def)
  next
    assume "p = ''https://''"
    then have "split url ''//'' = ''https:'' # x # xs" using u x split_https by simp
    then show ?thesis by (auto simp add: safe_name_def index_def)
  qed
qed

section \<open>The sanitized name\<close>

text \<open>
  C7. For every address that carries a scheme, the name is computed (the index into the
  pieces of the address does not raise), and no character of the name is one of
  \<open>: / \ ? * & " < > |\<close>.
\<close>

theorem safe_name_has_no_forbidden_character:
  assumes "startswith url ''http://'' \<or> startswith url ''https://''"
  shows "\<exists>name. safe_name url = Inr name \<and> (\<forall>c \<in> set name. c \<notin> forbidden)"
  using safe_name_defined [OF assms] re_sub_forbidden_clean by blast

theorem safe_name_has_no_forbidden_character_witness:
  "startswith ''https://a.com/x?y=1&z'' ''https://''
   \<and> safe_name ''https://a.com/x?y=1&z'' = Inr ''a.com_x_y=1_z''
   \<and> set ''a.com_x_y=1_z'' \<inter> forbidden = {}"
proof -
  have h: "startswith ''https://a.com/x?y=1&z'' ''https://''"
    by (simp add: startswith_def)
  have e: "safe_name ''https://a.com/x?y=1&z'' = Inr ''a.com_x_y=1_z''"
    by (simp add: safe_name_def split_def startswith_def index_def re_sub_forbidden_def
        forbidden_def)
  from safe_name_has_no_forbidden_character [of "''https://a.com/x?y=1&z''"] h e
  show ?thesis by auto
qed

section \<open>Facts about the names of the artifacts\<close>

lemma digit_char_not_underscore: "d < 10 \<Longrightarrow> digit_char d \<noteq> CHR ''_''"
proof -
  assume "d < 10"
  then have "d \<in> {0,1,2,3,4,5,6,7,8,9}" by auto
  then show ?thesis by (auto simp: digit_char_def)
qed

lemma digit_char_inj: "a < 10 \<Longrightarrow> b < 10 \<Longrightarrow> digit_char a = digit_char b \<Longrightarrow> a = b"
proof -
  assume "a < 10" "b < 10" and e: "digit_char a = digit_char b"
  then have "a \<in> {0,1,2,3,4,5,6,7,8,9}" "b \<in> {0,1,2,3,4,5,6,7,8,9}" by auto
  with e show ?thesis by (auto simp: digit_char_def)
qed

lemma str_nat_nonempty: "str_nat n \<noteq> []"
  by (subst str_nat.simps) simp

lemma str_nat_no_underscore: "CHR ''_'' \<notin> set (str_nat n)"
proof (induction n rule: str_nat.induct)
  case (1 n)
  show ?case
  proof (cases "n < 10")
    case True
    then show ?thesis using digit_char_not_underscore [of n] by (subst str_nat.simps) auto
  next
    case False
    have "n mod 10 < 10" by simp
    then show ?thesis using 1 False digit_char_not_underscore [of "n mod 10"]
      by (subst str_nat.simps) auto
  qed
qed

lemma str_nat_inj: "str_nat a = str_nat b \<Longrightarrow> a = b"
proof (induction a arbitrary: b rule: str_nat.induct)
  case (1 n)
  show ?case
  proof (cases "n < 10")
    case True
    note n = this
    show ?thesis
    proof (cases "b < 10")
      case True
      with n 1(2) show ?thesis
        using digit_char_inj [of n b] by (simp add: str_nat.simps [of n] str_nat.simps [of b])
    next
      case False
      with n 1(2) have "[digit_char n] = str_nat (b div 10) @ [digit_char (b mod 10)]"
        by (simp add: str_nat.simps [of n] str_nat.simps [of b])
      then show ?thesis using str_nat_nonempty [of "b div 10"] by simp
    qed
  next
    case False
    note n = this
    show ?thesis
    proof (cases "b < 10")
      case True
      with n 1(2) have "str_nat (n div 10) @ [digit_char (n mod 10)] = [digit_char b]"
        by (simp add: str_nat.simps [of n] str_nat.simps [of b])
      then show ?thesis using str_nat_nonempty [of "n div 10"] by simp
    next
      case False
      with n 1(2) have e: "str_nat (n div 10) @ [digit_char (n mod 10)]
                          = str_nat (b div 10) @ [digit_char (b mod 10)]"
        by (simp add: str_nat.simps [of n] str_nat.simps [of b])
      then have "str_nat (n div 10) = str_nat (b div 10)"
        and d: "digit_char (n mod 10) = digit_char (b mod 10)" by auto
      then have "n div 10 = b div 10" using 1(1) n by blast
      moreover have "n mod 10 = b mod 10" using d digit_char_inj [of "n mod 10" "b mod 10"] by simp
      ultimately show ?thesis by (metis div_mult_mod_eq)
    qed
  qed
qed

lemma takeWhile_digits:
  "CHR ''_'' \<notin> set ds \<Longrightarrow> takeWhile (\<lambda>c. c \<noteq> CHR ''_'') (ds @ CHR ''_'' # r) = ds"
  by (induction ds) auto

lemma digits_prefix_unique:
  assumes "CHR ''_'' \<notin> set ds" "CHR ''_'' \<notin> set es" "ds @ CHR ''_'' # r = es @ CHR ''_'' # q"
  shows "ds = es \<and> r = q"
proof -
  have "takeWhile (\<lambda>c. c \<noteq> CHR ''_'') (ds @ CHR ''_'' # r) = ds"
    using assms(1) by (rule takeWhile_digits)
  moreover have "takeWhile (\<lambda>c. c \<noteq> CHR ''_'') (es @ CHR ''_'' # q) = es"
    using assms(2) by (rule takeWhile_digits)
  ultimately have "ds = es" using assms(3) by simp
  with assms(3) show ?thesis by simp
qed

lemma artifact_file_eq_iff:
  "(artifact_file i name = artifact_file j name') = (i = j \<and> name = name')"
proof
  assume "artifact_file i name = artifact_file j name'"
  then have "str_nat (i + 1) @ CHR ''_'' # (name @ ''.png'')
           = str_nat (j + 1) @ CHR ''_'' # (name' @ ''.png'')"
    by (simp add: artifact_file_def)
  then have "str_nat (i + 1) = str_nat (j + 1) \<and> name @ ''.png'' = name' @ ''.png''"
    using digits_prefix_unique str_nat_no_underscore by blast
  then show "i = j \<and> name = name'" using str_nat_inj [of "i + 1" "j + 1"] by simp
qed simp

lemma digit_char_not_slash: "d < 10 \<Longrightarrow> digit_char d \<noteq> CHR ''/''"
proof -
  assume "d < 10"
  then have "d \<in> {0,1,2,3,4,5,6,7,8,9}" by auto
  then show ?thesis by (auto simp: digit_char_def)
qed

lemma str_nat_no_slash: "CHR ''/'' \<notin> set (str_nat n)"
proof (induction n rule: str_nat.induct)
  case (1 n)
  show ?case
  proof (cases "n < 10")
    case True
    then show ?thesis using digit_char_not_slash [of n] by (subst str_nat.simps) auto
  next
    case False
    have "n mod 10 < 10" by simp
    then show ?thesis using 1 False digit_char_not_slash [of "n mod 10"]
      by (subst str_nat.simps) auto
  qed
qed

lemma artifact_file_not_absolute: "\<not> startswith (artifact_file i name) ''/''"
proof -
  obtain c cs where c: "str_nat (i + 1) = c # cs"
    using str_nat_nonempty by (cases "str_nat (i + 1)") auto
  have "c \<noteq> CHR ''/''"
    using str_nat_no_slash [of "i + 1"] c by auto
  then show ?thesis using c by (simp add: artifact_file_def startswith_def)
qed

lemma screenshot_path_eq: "screenshot_path i name = ''screenshots/'' @ artifact_file i name"
  using artifact_file_not_absolute [of i name]
  by (simp add: screenshot_path_def os_path_join_def SCREENSHOT_DIR_def)

lemma screenshot_path_eq_iff:
  "(screenshot_path i name = screenshot_path j name') = (i = j \<and> name = name')"
  by (simp add: screenshot_path_eq artifact_file_eq_iff)

section \<open>Facts about the task on a page of constant height\<close>

lemma scroll_loop_constant:
  "scroll_loop (constant_page h) p (Suc n) h s = ([ScrolledBy h, Slept p, Measured h], Inr (Suc s))"
  by (simp add: constant_page_def timed_page_def)

lemma settle_constant:
  "settle (constant_page h) s = ([Measured h, ScrolledBy h, Slept 1, Measured h], Inr (Suc s))"
proof -
  have "(30::nat) = Suc 29" by simp
  then have "scroll_loop (constant_page h) 1 30 h s
             = ([ScrolledBy h, Slept 1, Measured h], Inr (Suc s))"
    using scroll_loop_constant [of h 1 29 s] by simp
  then show ?thesis
    by (simp add: settle_def scroll_to_bottom_def constant_page_def timed_page_def)
qed

lemma take_screenshot_obliging:
  "safe_name url = Inr name \<Longrightarrow>
   take_screenshot obliging_env url i =
     \<lparr>outcome = Inr (Success url), written = Some (artifact_file i name), context_closed = True\<rparr>"
  by (simp add: take_screenshot_def try_body_def obliging_env_def settle_constant)

lemma written_is_artifact_file:
  "written (take_screenshot env url i) = Some f \<Longrightarrow> \<exists>name. f = artifact_file i name"
  by (auto simp: take_screenshot_def try_body_def Let_def split: option.splits sum.splits)

section \<open>Facts about the files of a batch\<close>

lemma files_written_from:
  "f \<in> set (files_written (map (\<lambda>(i, url). (i, take_screenshot (envs i) url i)) (enumerate n urls)))
   \<Longrightarrow> \<exists>k name. n \<le> k \<and> f = artifact_file k name"
proof (induction urls arbitrary: n)
  case Nil
  then show ?case by simp
next
  case (Cons u us)
  show ?case
  proof (cases "written (take_screenshot (envs n) u n)")
    case None
    with Cons.prems have "f \<in> set (files_written (map (\<lambda>(i, url). (i, take_screenshot (envs i) url i)) (enumerate (Suc n) us)))"
      by simp
    from Cons.IH [OF this] obtain k name where "Suc n \<le> k" "f = artifact_file k name"
      by blast
    then have "n \<le> k \<and> f = artifact_file k name" by simp
    then show ?thesis by blast
  next
    case (Some g)
    with Cons.prems have "f = g \<or> f \<in> set (files_written (map (\<lambda>(i, url). (i, take_screenshot (envs i) url i)) (enumerate (Suc n) us)))"
      by simp
    then show ?thesis
    proof
      assume "f = g"
      then show ?thesis using Some written_is_artifact_file by blast
    next
      assume "f \<in> set (files_written (map (\<lambda>(i, url). (i, take_screenshot (envs i) url i)) (enumerate (Suc n) us)))"
      from Cons.IH [OF this] obtain k name where "Suc n \<le> k" "f = artifact_file k name"
        by blast
      then have "n \<le> k \<and> f = artifact_file k name" by simp
      then show ?thesis by blast
    qed
  qed
qed

lemma files_written_distinct_from:
  "distinct (files_written (map (\<lambda>(i, url). (i, take_screenshot (envs i) url i)) (enumerate n urls)))"
proof (induction urls arbitrary: n)
  case Nil
  then show ?case by simp
next
  case (Cons u us)
  show ?case
  proof (cases "written (take_screenshot (envs n) u n)")
    case None
    then show ?thesis using Cons.IH [of "Suc n"] by simp
  next
    case (Some g)
    then obtain name where g: "g = artifact_file n name"
      using written_is_artifact_file by blast
    have "g \<notin> set (files_written (map (\<lambda>(i, url). (i, take_screenshot (envs i) url i)) (enumerate (Suc n) us)))"
    proof
      assume "g \<in> set (files_written (map (\<lambda>(i, url). (i, take_screenshot (envs i) url i)) (enumerate (Suc n) us)))"
      from files_written_from [OF this] obtain k name' where "Suc n \<le> k" "g = artifact_file k name'"
        by blast
      then show False using g by (simp add: artifact_file_eq_iff)
    qed
    then show ?thesis using Some Cons.IH [of "Suc n"] by simp
  qed
qed

lemma files_written_distinct: "distinct (files_written (batch_tasks envs urls))"
  unfolding batch_tasks_def by (rule files_written_distinct_from)

lemma safe_name_a_com: "safe_name ''https://a.com'' = Inr ''a.com''"
  by (simp add: safe_name_def split_def startswith_def index_def re_sub_forbidden_def
      forbidden_def)

lemma paste_a_com_twice:
  "paste_handler (''a.com'' @ [CHR 0x0A] @ ''a.com'') = ([''https://a.com'', ''https://a.com''], [])"
  by (simp add: paste_handler_def pasted_lines_def split_def startswith_def strip_def isspace_def
      add_scheme_def)

lemma artifact_file_1: "artifact_file 0 ''a.com'' = ''1_a.com.png''"
  by (simp add: artifact_file_def str_nat.simps digit_char_def)

lemma artifact_file_2: "artifact_file (Suc 0) ''a.com'' = ''2_a.com.png''"
proof -
  have "str_nat (Suc (Suc 0)) = ''2''"
    by (subst str_nat.simps) (simp add: digit_char_def)
  then show ?thesis by (simp add: artifact_file_def)
qed

lemma batch_tasks_a_com_twice:
  "batch_tasks (\<lambda>i. obliging_env) [''https://a.com'', ''https://a.com''] =
     [(0, \<lparr>outcome = Inr (Success ''https://a.com''), written = Some ''1_a.com.png'',
           context_closed = True\<rparr>),
      (1, \<lparr>outcome = Inr (Success ''https://a.com''), written = Some ''2_a.com.png'',
           context_closed = True\<rparr>)]"
  by (simp add: batch_tasks_def take_screenshot_obliging [OF safe_name_a_com]
      artifact_file_1 artifact_file_2)

lemma finish_time_obliging: "finish_time obliging_env = 0"
  by (simp add: obliging_env_def)

lemma run_a_com_twice:
  "case run_batch_processor None None (\<lambda>i. obliging_env) [''https://a.com'', ''https://a.com'']
     (initial_state empty_dirs) of (e, st) \<Rightarrow> e = None \<and>
   logs st = [Success ''https://a.com'', Success ''https://a.com'']
   \<and> map_option dom (fs st SCREENSHOT_DIR) = Some {''1_a.com.png'', ''2_a.com.png''}"
  by (auto simp add: run_batch_processor_def batch_tasks_a_com_twice as_completed_def
      finish_time_obliging Let_def initial_state_def empty_dirs_def write_artifact_def SCREENSHOT_DIR_def ZIP_DIR_def)

section \<open>Facts about the loop of the batch\<close>

lemma completed_counts_append:
  "completed_counts (es @ es') = completed_counts es @ completed_counts es'"
  by (induction es rule: completed_counts.induct) auto

lemma total_counts_append:
  "total_counts (es @ es') = total_counts es @ total_counts es'"
  by (induction es rule: total_counts.induct) auto

lemma batch_loop_all_return:
  assumes "\<forall>f \<in> set futures. returned (snd f)"
  shows "\<exists>st'. batch_loop n_total i futures st = (None, st')
           \<and> length (logs st') = length (logs st) + length futures
           \<and> completed_counts (events st')
               = completed_counts (events st) @ [Suc i..<Suc (i + length futures)]
           \<and> total_counts (events st')
               = total_counts (events st) @ replicate (length futures) n_total
           \<and> processing_complete st' = processing_complete st"
  using assms
proof (induction futures arbitrary: i st)
  case Nil
  then show ?case by simp
next
  case (Cons f futures)
  obtain k t where f: "f = (k, t)" by (cases f)
  from Cons.prems f obtain result where r: "outcome t = Inr result"
    by (auto simp: returned_def split: sum.splits)
  define st1 where "st1 = (case written t of None \<Rightarrow> st
                           | Some name \<Rightarrow> st\<lparr>fs := write_artifact (fs st) name\<rparr>)"
  have st1: "logs st1 = logs st" "events st1 = events st"
    "processing_complete st1 = processing_complete st"
    by (auto simp: st1_def split: option.splits)
  define st2 where "st2 = st1\<lparr>logs := logs st1 @ [result],
      events := events st1 @ [Log_markdown (logs st1 @ [result]), Progress (i + 1) n_total]\<rparr>"
  have step: "batch_loop n_total i (f # futures) st = batch_loop n_total (i + 1) futures st2"
    by (simp add: f r st1_def st2_def Let_def)
  from Cons.prems have "\<forall>f \<in> set futures. returned (snd f)" by simp
  from Cons.IH [OF this, of "i + 1" st2] obtain st' where
    a: "batch_loop n_total (i + 1) futures st2 = (None, st')"
    and b: "length (logs st') = length (logs st2) + length futures"
    and c: "completed_counts (events st')
               = completed_counts (events st2) @ [Suc (i + 1)..<Suc (i + 1 + length futures)]"
    and d: "total_counts (events st')
               = total_counts (events st2) @ replicate (length futures) n_total"
    and e: "processing_complete st' = processing_complete st2"
    by blast
  have lt: "Suc i < Suc (i + length (f # futures))" by simp
  have e1: "Suc (i + 1) = Suc (Suc i)" by simp
  have e2: "Suc (i + 1 + length futures) = Suc (i + length (f # futures))" by simp
  have u: "[Suc i..<Suc (i + length (f # futures))]
           = Suc i # [Suc (i + 1)..<Suc (i + 1 + length futures)]"
    unfolding e1 e2 by (rule upt_conv_Cons [OF lt])
  have l: "length (logs st') = length (logs st) + length (f # futures)"
    using b st1 by (simp add: st2_def)
  have cc: "completed_counts (events st')
             = completed_counts (events st) @ [Suc i..<Suc (i + length (f # futures))]"
    unfolding u using c st1 by (simp add: st2_def completed_counts_append)
  have tc: "total_counts (events st')
             = total_counts (events st) @ replicate (length (f # futures)) n_total"
    using d st1 by (simp add: st2_def total_counts_append)
  have pc: "processing_complete st' = processing_complete st"
    using e st1 by (simp add: st2_def)
  from step a l cc tc pc show ?case by simp
qed

lemma batch_tasks_all_return:
  assumes "\<forall>i < length urls. task_returns (envs i) (urls ! i) i"
  shows "\<forall>f \<in> set (batch_tasks envs urls). returned (snd f)"
proof
  fix f assume "f \<in> set (batch_tasks envs urls)"
  then obtain i url where iu: "(i, url) \<in> set (enumerate 0 urls)"
    and f: "f = (i, take_screenshot (envs i) url i)"
    by (auto simp: batch_tasks_def)
  from iu have "i < length urls" "url = urls ! i"
    by (auto simp: in_set_enumerate_eq)
  with assms f show "returned (snd f)" by (simp add: task_returns_def)
qed

lemma length_batch_tasks: "length (batch_tasks envs urls) = length urls"
  by (simp add: batch_tasks_def)

lemma obliging_returns_a_com: "task_returns obliging_env ''https://a.com'' i"
  by (simp add: task_returns_def returned_def take_screenshot_obliging [OF safe_name_a_com])

lemma splitlines_from_nonempty: "cur \<noteq> [] \<or> s \<noteq> [] \<Longrightarrow> splitlines_from cur s \<noteq> []"
  by (induction cur s rule: splitlines_from.induct) auto

lemma handler_first_line:
  assumes "is_Exception e" "description e \<noteq> []"
  shows "handler url e = Inr (ErrorOn url (hd (splitlines (description e))))"
proof -
  have "splitlines (description e) \<noteq> []"
    using assms(2) splitlines_from_nonempty by (simp add: splitlines_def)
  then show ?thesis using assms(1)
    by (cases "splitlines (description e)") (simp_all add: handler_def index_def)
qed

lemma take_screenshot_catches:
  assumes "try_body env url i = Inl e" "is_Exception e" "description e \<noteq> []"
    and "new_context_exc env \<noteq> None \<or> close_exc env = None"
  shows "outcome (take_screenshot env url i)
           = Inr (ErrorOn url (hd (splitlines (description e))))"
  using assms handler_first_line [OF assms(2,3), of url]
  by (auto simp: take_screenshot_def Let_def)

section \<open>The capture task and the exceptions\<close>

text \<open>
  C1. The claim is that no exception leaves the capture task, whatever the error, also
  one whose description is the empty text. The handler takes the first line of the
  description with \<open>str(e).splitlines()[0]\<close>, and the empty text has no line: when
  \<open>page.goto\<close> raises an exception whose description is empty, the task does not return
  a line, an \<open>IndexError\<close> leaves it, and \<open>await future\<close> raises it in the batch
  processor, which ends with no line in the log. (For a description that is not empty the
  handler does return the first line: \<open>take_screenshot_catches\<close>.)
\<close>

theorem empty_description_escapes_the_task:
  "outcome (take_screenshot (goto_failing_env (Exception '''')) ''https://a.com'' 0)
     = Inl IndexError
   \<and> run_batch_processor None None (\<lambda>i. goto_failing_env (Exception '''')) [''https://a.com'']
        (initial_state empty_dirs)
     = (Some IndexError, (initial_state empty_dirs)\<lparr>events := [Info_starting_browser]\<rparr>)"
  by (simp add: take_screenshot_def try_body_def goto_failing_env_def obliging_env_def
      handler_def splitlines_def index_def run_batch_processor_def batch_tasks_def
      as_completed_def initial_state_def)

section \<open>The records and the progress of a batch\<close>

text \<open>
  C2, as amended. When the browser launches and every capture task returns its line, a
  batch of \<open>N\<close> addresses leaves exactly \<open>N\<close> lines in the log, and the completed counts
  of the progress events it emits are \<open>1, 2, \<dots>, N\<close> in this order, each with the total
  \<open>N\<close>: they grow by one from one, and \<open>N\<close> is the last of them and appears once. The
  exception that leaves the function, if any, is the one of closing the browser.
\<close>

theorem batch_gives_one_record_per_address:
  assumes "launch_exc = None"
    and "\<forall>i < length urls. task_returns (envs i) (urls ! i) i"
  shows "case run_batch_processor launch_exc browser_close_exc envs urls st of
           (e, st') \<Rightarrow>
             e = browser_close_exc
             \<and> length (logs st') = length urls
             \<and> completed_counts (events st')
                 = completed_counts (events st) @ [1..<Suc (length urls)]
             \<and> total_counts (events st')
                 = total_counts (events st) @ replicate (length urls) (length urls)"
proof -
  define tasks where "tasks = batch_tasks envs urls"
  define futures where "futures = as_completed tasks (\<lambda>i. finish_time (envs i))"
  define st1 where "st1 = st\<lparr>logs := [], events := events st @ [Info_starting_browser]\<rparr>"
  have n: "length futures = length urls"
    by (simp add: futures_def as_completed_def tasks_def length_batch_tasks)
  have "\<forall>f \<in> set futures. returned (snd f)"
    using batch_tasks_all_return [OF assms(2)]
    by (simp add: futures_def as_completed_def tasks_def)
  from batch_loop_all_return [OF this, of "length tasks" 0 st1] obtain st2 where
    a: "batch_loop (length tasks) 0 futures st1 = (None, st2)"
    and b: "length (logs st2) = length (logs st1) + length futures"
    and c: "completed_counts (events st2)
              = completed_counts (events st1) @ [Suc 0..<Suc (0 + length futures)]"
    and d: "total_counts (events st2)
              = total_counts (events st1) @ replicate (length futures) (length tasks)"
    by blast
  have r: "run_batch_processor launch_exc browser_close_exc envs urls st =
        (case browser_close_exc of
           Some e \<Rightarrow> (Some e, st2)
         | None \<Rightarrow> (None, st2\<lparr>events := events st2 @ [Success_all_completed],
                               processing_complete := True\<rparr>))"
    using a assms(1)
    by (simp add: run_batch_processor_def Let_def tasks_def [symmetric] futures_def [symmetric]
        st1_def [symmetric])
  have l: "length (logs st2) = length urls" using b n by (simp add: st1_def)
  have cc: "completed_counts (events st2)
             = completed_counts (events st) @ [1..<Suc (length urls)]"
    using c n by (simp add: st1_def completed_counts_append)
  have tc: "total_counts (events st2)
             = total_counts (events st) @ replicate (length urls) (length urls)"
    using d n by (simp add: st1_def total_counts_append tasks_def length_batch_tasks)
  show ?thesis
    unfolding r using l cc tc
    by (cases browser_close_exc) (simp_all add: completed_counts_append total_counts_append)
qed

theorem batch_gives_one_record_per_address_witness:
  "case run_batch_processor None None (\<lambda>i. obliging_env) [''https://a.com'', ''https://a.com'']
          (initial_state empty_dirs) of
     (e, st') \<Rightarrow> e = None \<and> length (logs st') = 2 \<and> completed_counts (events st') = [1, 2]
        \<and> total_counts (events st') = [2, 2]"
proof -
  have h: "\<forall>i < length [''https://a.com'', ''https://a.com''].
             task_returns ((\<lambda>i. obliging_env) i) ([''https://a.com'', ''https://a.com''] ! i) i"
    by (simp add: obliging_returns_a_com nth_Cons')
  have u: "[1..<Suc 2] = [1, 2]" by (simp add: upt_rec)
  from batch_gives_one_record_per_address [OF refl h, of None "initial_state empty_dirs"] u
  show ?thesis
    by (simp add: initial_state_def numeral_2_eq_2 split: prod.splits)
qed

text \<open>
  C2 as stated fails: when launching the browser raises, the exception leaves
  \<open>run_batch_processor\<close> before any task is made, so a batch of one address leaves no
  line in the log and emits no progress event.
\<close>

theorem launch_failure_leaves_no_record:
  "case run_batch_processor (Some (Exception ''BrowserType.launch: Executable does not exist''))
          None (\<lambda>i. obliging_env) [''https://a.com''] (initial_state empty_dirs) of
     (e, st') \<Rightarrow>
       e = Some (Exception ''BrowserType.launch: Executable does not exist'')
       \<and> length (logs st') = 0 \<and> length [''https://a.com''] = 1
       \<and> completed_counts (events st') = []"
  by (simp add: run_batch_processor_def initial_state_def)

section \<open>The names of the artifacts of a batch\<close>

text \<open>
  C6. Two artifact names are equal only when the indices of their tasks are equal (and
  then the sanitized names are equal too), for the file names and for the paths; so the
  files that the tasks of a batch write are pairwise distinct. The pasted text
  \<open>a.com\<close>, \<open>a.com\<close> gives the same address twice, and on a browser that does all it is
  asked the batch of the two leaves two lines in the log and the two files
  \<open>1_a.com.png\<close> and \<open>2_a.com.png\<close> in the screenshot directory.
\<close>

theorem artifact_files_pairwise_distinct:
  "(artifact_file i name = artifact_file j name') = (i = j \<and> name = name')
   \<and> (screenshot_path i name = screenshot_path j name') = (i = j \<and> name = name')
   \<and> distinct (files_written (batch_tasks envs urls))
   \<and> fst (paste_handler (''a.com'' @ [CHR 0x0A] @ ''a.com''))
        = [''https://a.com'', ''https://a.com'']
   \<and> (case run_batch_processor None None (\<lambda>i. obliging_env)
                [''https://a.com'', ''https://a.com''] (initial_state empty_dirs) of
         (e, st) \<Rightarrow>
           e = None
           \<and> logs st = [Success ''https://a.com'', Success ''https://a.com'']
           \<and> map_option dom (fs st SCREENSHOT_DIR) = Some {''1_a.com.png'', ''2_a.com.png''})"
  using artifact_file_eq_iff [of i name j name'] screenshot_path_eq_iff [of i name j name']
    files_written_distinct [of envs urls] paste_a_com_twice run_a_com_twice
  by simp

section \<open>Facts about the input area\<close>

lemma set_dropna: "set (dropna xs) = {v. Some v \<in> set xs}"
  by (induction xs rule: dropna.induct) auto

lemma set_unique_from: "set (unique_from seen xs) = set xs - set seen"
  by (induction seen xs rule: unique_from.induct) auto

lemma distinct_unique_from: "distinct (unique_from seen xs)"
  by (induction seen xs rule: unique_from.induct) (auto simp: set_unique_from)

lemma set_unique: "set (unique xs) = set xs"
  by (simp add: unique_def set_unique_from)

lemma distinct_unique: "distinct (unique xs)"
  by (simp add: unique_def distinct_unique_from)

lemma distinct_prefixed: "distinct (map (\<lambda>url. p @ url) xs) = distinct xs"
  by (simp add: distinct_map inj_on_def)

lemma csv_handler_name:
  "map_of columns ''name'' = Some col \<Longrightarrow>
   fst (csv_handler (DataFrame columns)) = map (\<lambda>url. ''https://'' @ url) (unique (dropna col))"
  by (simp add: csv_handler_def Let_def)

lemma startswith_prefixed: "startswith (p @ s) p"
  by (simp add: startswith_def)

lemma add_scheme_has_scheme:
  "startswith (add_scheme line) ''http://'' \<or> startswith (add_scheme line) ''https://''"
  unfolding add_scheme_def using startswith_prefixed [of "''https://''" line]
  by (simp del: append.simps)

lemma paste_handler_urls:
  "fst (paste_handler url_input) = map add_scheme (take 10 (pasted_lines url_input))"
  by (simp add: paste_handler_def Let_def)

lemma csv_handler_has_scheme:
  "u \<in> set (fst (csv_handler f)) \<Longrightarrow> startswith u ''https://''"
  using startswith_prefixed [of "''https://''"]
  by (auto simp: csv_handler_def Let_def simp del: append.simps split: csv_read.splits option.splits)

lemma input_area_has_scheme:
  assumes "u \<in> set (fst (input_area uploaded_file url_input))"
  shows "startswith u ''http://'' \<or> startswith u ''https://''"
proof (cases "url_input = []")
  case True
  then have "u \<in> set (case uploaded_file of None \<Rightarrow> [] | Some f \<Rightarrow> fst (csv_handler f))"
    using assms by (auto simp: input_area_def split: option.splits prod.splits)
  then show ?thesis using csv_handler_has_scheme by (auto split: option.splits)
next
  case False
  then have "u \<in> set (fst (paste_handler url_input))"
    using assms by (auto simp: input_area_def split: option.splits prod.splits)
  then show ?thesis using add_scheme_has_scheme by (auto simp: paste_handler_urls)
qed

lemma csv_value_with_scheme:
  "fst (csv_handler (DataFrame [(''name'', [Some ''https://a.com''])])) = [''https://https://a.com'']"
  by (simp add: csv_handler_def unique_def)

lemma csv_a_com_twice:
  "fst (csv_handler (DataFrame [(''name'', [Some ''a.com'', None, Some ''a.com''])])) = [''https://a.com'']"
  by (simp add: csv_handler_def unique_def)

lemma count_list_distinct: "distinct xs \<Longrightarrow> x \<in> set xs \<Longrightarrow> count_list xs x = 1"
  by (induction xs) (auto simp: count_list_0_iff)

lemma run_a_com_once:
  "case run_batch_processor None None (\<lambda>i. obliging_env) [''https://a.com'']
     (initial_state empty_dirs) of (e, st) \<Rightarrow> e = None \<and> logs st = [Success ''https://a.com'']"
  by (auto simp add: run_batch_processor_def batch_tasks_def
      take_screenshot_obliging [OF safe_name_a_com] as_completed_def
      finish_time_obliging Let_def initial_state_def)

text \<open>
  What holds on both paths: every address that the input area hands to the batch starts
  with \<open>http://\<close> or \<open>https://\<close>; on the pasted text \<open>https://\<close> is put before a
  line only when the line does not start with a scheme; on an uploaded file it is put
  before every value of the column.
\<close>

lemma addresses_start_with_a_scheme:
  "(\<forall>u \<in> set (fst (input_area uploaded_file url_input)).
      startswith u ''http://'' \<or> startswith u ''https://'')
   \<and> fst (paste_handler url_input) = map add_scheme (take 10 (pasted_lines url_input))
   \<and> add_scheme line =
        (if startswith line ''http://'' \<or> startswith line ''https://'' then line
         else ''https://'' @ line)
   \<and> (map_of columns ''name'' = Some col \<longrightarrow>
        fst (csv_handler (DataFrame columns))
          = map (\<lambda>v. ''https://'' @ v) (unique (dropna col)))"
  using input_area_has_scheme [of _ uploaded_file url_input] paste_handler_urls [of url_input]
    csv_handler_name [of columns col]
  by (auto simp: add_scheme_def)

section \<open>The addresses of the two input paths\<close>

text \<open>
  C3. The claim is that on either input path a scheme is put before the input only when
  the input does not already start with one, so that an input that carries a scheme is
  passed unchanged. The pasted text does so (lines 177 to 183, \<open># Add https:// if missing\<close>):
  the line \<open>https://a.com\<close> gives the address \<open>https://a.com\<close>. The uploaded file does
  not (line 158 has no such test): the same value \<open>https://a.com\<close> in the column
  \<open>name\<close> gives the address \<open>https://https://a.com\<close>, whose sanitized name in the
  capture task is \<open>https_\<close>.
\<close>

theorem csv_value_with_scheme_is_prefixed_again:
  "startswith ''https://a.com'' ''https://''
   \<and> fst (input_area None ''https://a.com'') = [''https://a.com'']
   \<and> fst (input_area (Some (DataFrame [(''name'', [Some ''https://a.com''])])) '''')
        = [''https://https://a.com'']
   \<and> ''https://https://a.com'' \<noteq> ''https://a.com''
   \<and> safe_name ''https://https://a.com'' = Inr ''https_''"
proof -
  have paste: "fst (input_area None ''https://a.com'') = [''https://a.com'']"
    by (simp add: input_area_def paste_handler_def pasted_lines_def split_def startswith_def
        strip_def isspace_def add_scheme_def)
  have csv: "fst (input_area (Some (DataFrame [(''name'', [Some ''https://a.com''])])) '''')
        = [''https://https://a.com'']"
    by (simp add: input_area_def csv_handler_def unique_def)
  have name: "safe_name ''https://https://a.com'' = Inr ''https_''"
    by (simp add: safe_name_def split_def startswith_def index_def re_sub_forbidden_def
        forbidden_def)
  from paste csv name show ?thesis by (simp add: startswith_def)
qed

section \<open>The addresses of an uploaded file\<close>

text \<open>
  C10. When the uploaded file has a column \<open>name\<close>, the addresses taken from it are
  pairwise distinct and are the values of the column that are not missing, each with
  \<open>https://\<close> before it; so there are as many tasks as distinct values, and a value
  that is in the column, however many times, is the address of exactly one task. A file
  with \<open>a.com\<close>, a missing value and \<open>a.com\<close> again gives one address and, on a
  browser that does all it is asked, one line in the log; the pasted text \<open>a.com\<close>,
  \<open>a.com\<close> gives the address twice, and a pasted text gives one address for each of its
  first ten lines.
\<close>

theorem csv_addresses_are_unique:
  "(map_of columns ''name'' = Some col \<longrightarrow>
      distinct (fst (csv_handler (DataFrame columns)))
      \<and> set (fst (csv_handler (DataFrame columns)))
           = (\<lambda>v. ''https://'' @ v) ` {v. Some v \<in> set col}
      \<and> length (batch_tasks envs (fst (csv_handler (DataFrame columns))))
           = card {v. Some v \<in> set col}
      \<and> (Some v \<in> set col \<longrightarrow>
           count_list (fst (csv_handler (DataFrame columns))) (''https://'' @ v) = 1))
   \<and> fst (csv_handler (DataFrame [(''name'', [Some ''a.com'', None, Some ''a.com''])]))
        = [''https://a.com'']
   \<and> (case run_batch_processor None None (\<lambda>i. obliging_env)
                (fst (csv_handler (DataFrame [(''name'', [Some ''a.com'', None, Some ''a.com''])])))
                (initial_state empty_dirs) of
         (e, st) \<Rightarrow> e = None \<and> logs st = [Success ''https://a.com''])
   \<and> fst (paste_handler (''a.com'' @ [CHR 0x0A] @ ''a.com''))
        = [''https://a.com'', ''https://a.com'']
   \<and> length (fst (paste_handler url_input)) = min 10 (length (pasted_lines url_input))"
proof -
  have general: "distinct (fst (csv_handler (DataFrame columns)))
      \<and> set (fst (csv_handler (DataFrame columns)))
           = (\<lambda>v. ''https://'' @ v) ` {v. Some v \<in> set col}
      \<and> length (batch_tasks envs (fst (csv_handler (DataFrame columns))))
           = card {v. Some v \<in> set col}
      \<and> (Some v \<in> set col \<longrightarrow>
           count_list (fst (csv_handler (DataFrame columns))) (''https://'' @ v) = 1)"
    if c: "map_of columns ''name'' = Some col"
  proof -
    let ?urls = "fst (csv_handler (DataFrame columns))"
    have u: "?urls = map (\<lambda>url. ''https://'' @ url) (unique (dropna col))"
      using c by (rule csv_handler_name)
    have d: "distinct ?urls"
      unfolding u by (simp only: distinct_prefixed distinct_unique)
    have s: "set ?urls = (\<lambda>v. ''https://'' @ v) ` {v. Some v \<in> set col}"
      unfolding u by (simp only: set_map set_unique set_dropna)
    have "length ?urls = card (set (unique (dropna col)))"
      unfolding u using distinct_card [OF distinct_unique, of "dropna col"] by simp
    then have l: "length (batch_tasks envs ?urls) = card {v. Some v \<in> set col}"
      by (simp add: length_batch_tasks set_unique set_dropna)
    have k: "count_list ?urls (''https://'' @ v) = 1" if "Some v \<in> set col"
    proof -
      from that have "''https://'' @ v \<in> set ?urls" unfolding s by blast
      with d show ?thesis by (rule count_list_distinct)
    qed
    from d s l k show ?thesis by blast
  qed
  have p: "length (fst (paste_handler url_input)) = min 10 (length (pasted_lines url_input))"
    by (simp add: paste_handler_urls)
  from general csv_a_com_twice run_a_com_once paste_a_com_twice p show ?thesis
    by simp
qed

theorem csv_addresses_are_unique_witness:
  "map_of [(''name'', [Some ''a.com'', None, Some ''b.org'', Some ''a.com''])] ''name''
     = Some [Some ''a.com'', None, Some ''b.org'', Some ''a.com'']
   \<and> Some ''a.com'' \<in> set [Some ''a.com'', None, Some ''b.org'', Some ''a.com'']
   \<and> fst (csv_handler (DataFrame [(''name'', [Some ''a.com'', None, Some ''b.org'', Some ''a.com''])]))
       = [''https://a.com'', ''https://b.org'']
   \<and> count_list (fst (csv_handler
         (DataFrame [(''name'', [Some ''a.com'', None, Some ''b.org'', Some ''a.com''])])))
         ''https://a.com'' = 1"
proof -
  have e: "fst (csv_handler (DataFrame [(''name'', [Some ''a.com'', None, Some ''b.org'', Some ''a.com''])]))
       = [''https://a.com'', ''https://b.org'']"
    by (simp add: csv_handler_def unique_def)
  have m: "map_of [(''name'', [Some ''a.com'', None, Some ''b.org'', Some ''a.com''])] ''name''
     = Some [Some ''a.com'', None, Some ''b.org'', Some ''a.com'']" by simp
  have i: "Some ''a.com'' \<in> set [Some ''a.com'', None, Some ''b.org'', Some ''a.com'']" by simp
  note t = csv_addresses_are_unique
    [of "[(''name'', [Some ''a.com'', None, Some ''b.org'', Some ''a.com''])]"
        "[Some ''a.com'', None, Some ''b.org'', Some ''a.com'']" "\<lambda>i. obliging_env"
        "''a.com''" "''''"]
  note c = t [THEN conjunct1, THEN mp, OF m]
  from c [THEN conjunct2, THEN conjunct2, THEN conjunct2, THEN mp, OF i]
  have "count_list (fst (csv_handler
         (DataFrame [(''name'', [Some ''a.com'', None, Some ''b.org'', Some ''a.com''])])))
         ''https://a.com'' = 1"
    by simp
  with e m i show ?thesis by simp
qed

section \<open>Facts about the directories\<close>

lemma dirs_differ: "SCREENSHOT_DIR \<noteq> ZIP_DIR"
  by (simp add: SCREENSHOT_DIR_def ZIP_DIR_def)

lemma flush_directory_eq: "flush_directory f d = Inr (f(d \<mapsto> Map.empty))"
  by (simp add: flush_directory_def makedirs_def path_exists_def rmtree_def)

lemma flush_files_eq:
  "flush_files st =
     Inr (st\<lparr>fs := (fs st)(SCREENSHOT_DIR \<mapsto> Map.empty, ZIP_DIR \<mapsto> Map.empty), logs := [],
             processing_complete := False, zip_path := None,
             events := events st @ [Toast_flushed]\<rparr>)"
  by (simp add: flush_files_def flush_directory_eq)

lemma module_setup_eq:
  "module_setup st =
     Inr (st\<lparr>fs := (fs st)
            (SCREENSHOT_DIR \<mapsto> (case fs st SCREENSHOT_DIR of None \<Rightarrow> Map.empty | Some d \<Rightarrow> d),
             ZIP_DIR \<mapsto> (case fs st ZIP_DIR of None \<Rightarrow> Map.empty | Some d \<Rightarrow> d))\<rparr>)"
proof -
  show ?thesis
    using dirs_differ
    by (cases "fs st SCREENSHOT_DIR"; cases "fs st ZIP_DIR")
       (auto simp: module_setup_def makedirs_def path_exists_def fun_upd_idem fun_upd_twist
          intro!: arg_cong [where f = "\<lambda>f. st\<lparr>fs := f\<rparr>"])
qed

section \<open>Flushing twice\<close>

text \<open>
  C8. Flushing never raises. After one flush the screenshot directory and the zip
  directory both exist and are empty, the log is empty and no archive path is
  remembered; a second flush right after the first leaves the same files and the same
  session state (it only shows its message once more).
\<close>

theorem flush_files_idempotent:
  "\<exists>st1 st2.
     flush_files st = Inr st1 \<and> flush_files st1 = Inr st2
     \<and> fs st1 SCREENSHOT_DIR = Some Map.empty \<and> fs st1 ZIP_DIR = Some Map.empty
     \<and> dir_entries (fs st1) SCREENSHOT_DIR = {} \<and> dir_entries (fs st1) ZIP_DIR = {}
     \<and> logs st1 = [] \<and> zip_path st1 = None \<and> \<not> processing_complete st1
     \<and> fs st2 = fs st1
     \<and> logs st2 = [] \<and> zip_path st2 = None \<and> \<not> processing_complete st2
     \<and> st2 = st1\<lparr>events := events st1 @ [Toast_flushed]\<rparr>"
  using dirs_differ by (simp add: flush_files_eq dir_entries_def)

section \<open>Facts about one run of the script\<close>

lemma archives_made_append:
  "archives_made (es @ es') = archives_made es @ archives_made es'"
  by (induction es rule: archives_made.induct) auto

lemma warnings_shown_append:
  "warnings_shown (es @ es') = warnings_shown es + warnings_shown es'"
  by (induction es rule: warnings_shown.induct) auto

lemma downloads_offered_append:
  "downloads_offered (es @ es') = downloads_offered es @ downloads_offered es'"
  by (induction es rule: downloads_offered.induct) auto

lemma input_area_events:
  "archives_made (snd (input_area uploaded_file url_input)) = []
   \<and> warnings_shown (snd (input_area uploaded_file url_input)) = 0
   \<and> downloads_offered (snd (input_area uploaded_file url_input)) = []"
  by (auto simp: input_area_def csv_handler_def paste_handler_def Let_def
      archives_made_append warnings_shown_append downloads_offered_append
      split: option.splits csv_read.splits prod.splits)

lemma zip_names:
  "os_path_join ZIP_DIR ''screenshots'' = ''zip_files/screenshots''"
  "dirname ''zip_files/screenshots'' = ZIP_DIR"
  "basename ''zip_files/screenshots'' = ''screenshots''"
  "dirname ''zip_files/screenshots.zip'' = ZIP_DIR"
  "basename ''zip_files/screenshots.zip'' = ''screenshots.zip''"
  by (simp_all add: os_path_join_def ZIP_DIR_def startswith_def dirname_def basename_def)


lemmas run_defs = script_run_def results_section_def create_zip_def scandir_def
  make_archive_def download_area_def open_rb_def truthy_def module_setup_eq Let_def

lemmas event_simps = archives_made_append warnings_shown_append downloads_offered_append
  input_area_events

lemma first_run_makes_archive:
  assumes "processing_complete st" "zip_path st = None"
    and "dir_entries (fs st) SCREENSHOT_DIR \<noteq> {}"
  shows "\<exists>st'. script_run uploaded_file url_input st = Inr st'
           \<and> processing_complete st'
           \<and> zip_path st' = Some ''zip_files/screenshots.zip''
           \<and> open_rb (fs st') ''zip_files/screenshots.zip''
                = Inr (Archive (dir_entries (fs st) SCREENSHOT_DIR))
           \<and> archives_made (events st')
                = archives_made (events st)
                  @ [(''zip_files/screenshots.zip'', dir_entries (fs st) SCREENSHOT_DIR)]
           \<and> downloads_offered (events st')
                = downloads_offered (events st) @ [''zip_files/screenshots.zip'']
           \<and> warnings_shown (events st') = warnings_shown (events st)"
proof -
  from assms(3) obtain d where d: "fs st SCREENSHOT_DIR = Some d" "dom d \<noteq> {}"
    by (auto simp: dir_entries_def split: option.splits)
  show ?thesis
    using assms(1,2) d dirs_differ
    by (simp add: run_defs event_simps zip_names dir_entries_def)
qed

lemma later_run_reuses_archive:
  assumes "processing_complete st" "zip_path st = Some ''zip_files/screenshots.zip''"
    and "open_rb (fs st) ''zip_files/screenshots.zip'' = Inr c"
  shows "\<exists>st'. script_run uploaded_file url_input st = Inr st'
           \<and> processing_complete st'
           \<and> zip_path st' = Some ''zip_files/screenshots.zip''
           \<and> open_rb (fs st') ''zip_files/screenshots.zip'' = Inr c
           \<and> archives_made (events st') = archives_made (events st)
           \<and> downloads_offered (events st')
                = downloads_offered (events st) @ [''zip_files/screenshots.zip'']
           \<and> warnings_shown (events st') = warnings_shown (events st)"
proof -
  from assms(3) obtain zd where zd: "fs st ZIP_DIR = Some zd" "zd ''screenshots.zip'' = Some c"
    by (auto simp: open_rb_def zip_names split: option.splits)
  show ?thesis
    using assms(1,2) zd dirs_differ
    by (simp add: run_defs event_simps zip_names)
qed

lemma run_without_screenshots:
  assumes "processing_complete st" "zip_path st = None"
    and "dir_entries (fs st) SCREENSHOT_DIR = {}"
  shows "\<exists>st'. script_run uploaded_file url_input st = Inr st'
           \<and> processing_complete st'
           \<and> zip_path st' = None
           \<and> dir_entries (fs st') SCREENSHOT_DIR = {}
           \<and> dir_entries (fs st') ZIP_DIR = dir_entries (fs st) ZIP_DIR
           \<and> archives_made (events st') = archives_made (events st)
           \<and> downloads_offered (events st') = downloads_offered (events st)
           \<and> warnings_shown (events st') = Suc (warnings_shown (events st))"
  using assms dirs_differ
  by (cases "fs st SCREENSHOT_DIR"; cases "fs st ZIP_DIR")
     (simp_all add: run_defs event_simps zip_names dir_entries_def)

lemma reruns_reuse_archive:
  assumes "processing_complete st" "zip_path st = Some ''zip_files/screenshots.zip''"
    and "open_rb (fs st) ''zip_files/screenshots.zip'' = Inr c"
  shows "\<exists>st'. reruns n uploaded_file url_input st = Inr st'
           \<and> zip_path st' = Some ''zip_files/screenshots.zip''
           \<and> open_rb (fs st') ''zip_files/screenshots.zip'' = Inr c
           \<and> archives_made (events st') = archives_made (events st)
           \<and> downloads_offered (events st')
                = downloads_offered (events st) @ replicate n ''zip_files/screenshots.zip''
           \<and> warnings_shown (events st') = warnings_shown (events st)"
  using assms
proof (induction n arbitrary: st)
  case 0
  then show ?case by simp
next
  case (Suc n)
  from later_run_reuses_archive [OF Suc.prems, of uploaded_file url_input]
  obtain st1 where r: "script_run uploaded_file url_input st = Inr st1"
    and p: "processing_complete st1" "zip_path st1 = Some ''zip_files/screenshots.zip''"
      "open_rb (fs st1) ''zip_files/screenshots.zip'' = Inr c"
    and e: "archives_made (events st1) = archives_made (events st)"
      "downloads_offered (events st1)
         = downloads_offered (events st) @ [''zip_files/screenshots.zip'']"
      "warnings_shown (events st1) = warnings_shown (events st)"
    by blast
  from Suc.IH [OF p] obtain st' where
    "reruns n uploaded_file url_input st1 = Inr st'"
    "zip_path st' = Some ''zip_files/screenshots.zip''"
    "open_rb (fs st') ''zip_files/screenshots.zip'' = Inr c"
    "archives_made (events st') = archives_made (events st1)"
    "downloads_offered (events st')
       = downloads_offered (events st1) @ replicate n ''zip_files/screenshots.zip''"
    "warnings_shown (events st') = warnings_shown (events st1)"
    by blast
  with r e show ?case by (simp add: replicate_append_same)
qed

lemma reruns_without_screenshots:
  assumes "processing_complete st" "zip_path st = None"
    and "dir_entries (fs st) SCREENSHOT_DIR = {}"
  shows "\<exists>st'. reruns n uploaded_file url_input st = Inr st'
           \<and> zip_path st' = None
           \<and> dir_entries (fs st') ZIP_DIR = dir_entries (fs st) ZIP_DIR
           \<and> archives_made (events st') = archives_made (events st)
           \<and> downloads_offered (events st') = downloads_offered (events st)
           \<and> warnings_shown (events st') = warnings_shown (events st) + n"
  using assms
proof (induction n arbitrary: st)
  case 0
  then show ?case by simp
next
  case (Suc n)
  from run_without_screenshots [OF Suc.prems, of uploaded_file url_input]
  obtain st1 where r: "script_run uploaded_file url_input st = Inr st1"
    and p: "processing_complete st1" "zip_path st1 = None"
      "dir_entries (fs st1) SCREENSHOT_DIR = {}"
    and e: "dir_entries (fs st1) ZIP_DIR = dir_entries (fs st) ZIP_DIR"
      "archives_made (events st1) = archives_made (events st)"
      "downloads_offered (events st1) = downloads_offered (events st)"
      "warnings_shown (events st1) = Suc (warnings_shown (events st))"
    by blast
  from Suc.IH [OF p] obtain st' where
    "reruns n uploaded_file url_input st1 = Inr st'"
    "zip_path st' = None"
    "dir_entries (fs st') ZIP_DIR = dir_entries (fs st1) ZIP_DIR"
    "archives_made (events st') = archives_made (events st1)"
    "downloads_offered (events st') = downloads_offered (events st1)"
    "warnings_shown (events st') = warnings_shown (events st1) + n"
    by blast
  with r e show ?case by simp
qed

text \<open>The state that a batch leaves when it completes.\<close>

lemma batch_loop_zip_path:
  "batch_loop n_total i futures st = (e, st') \<Longrightarrow> zip_path st' = zip_path st"
proof (induction futures arbitrary: i st)
  case Nil
  then show ?case by simp
next
  case (Cons f futures)
  obtain k t where f: "f = (k, t)" by (cases f)
  show ?case
  proof (cases "outcome t")
    case (Inl x)
    with Cons.prems f show ?thesis by (auto simp: Let_def split: option.splits)
  next
    case (Inr result)
    define st1 where "st1 = (case written t of None \<Rightarrow> st
                             | Some name \<Rightarrow> st\<lparr>fs := write_artifact (fs st) name\<rparr>)"
    have z: "zip_path st1 = zip_path st" by (simp add: st1_def split: option.splits)
    from Cons.prems f Inr
    have "batch_loop n_total (i + 1) futures
            (st1\<lparr>logs := logs st1 @ [result],
                 events := events st1 @ [Log_markdown (logs st1 @ [result]),
                                         Progress (i + 1) n_total]\<rparr>) = (e, st')"
      by (simp add: st1_def Let_def)
    from Cons.IH [OF this] z show ?thesis by simp
  qed
qed

lemma start_processing_completed:
  assumes "start_processing launch_exc browser_close_exc envs urls st = (None, st')"
  shows "processing_complete st' \<and> zip_path st' = None"
proof -
  obtain stf where f: "flush_files st = Inr stf" and zf: "zip_path stf = None"
    by (simp add: flush_files_eq)
  define st1 where
    "st1 = stf\<lparr>processing_complete := False, events := events stf @ [Progress_starting]\<rparr>"
  define st2 where "st2 = st1\<lparr>logs := [], events := events st1 @ [Info_starting_browser]\<rparr>"
  have r: "run_batch_processor launch_exc browser_close_exc envs urls st1 = (None, st')"
    using assms f by (simp add: start_processing_def st1_def)
  then have l: "launch_exc = None"
    by (cases launch_exc) (simp_all add: run_batch_processor_def Let_def)
  obtain e st3 where b: "batch_loop (length (batch_tasks envs urls)) 0
       (as_completed (batch_tasks envs urls) (\<lambda>i. finish_time (envs i))) st2 = (e, st3)"
    by (cases "batch_loop (length (batch_tasks envs urls)) 0
       (as_completed (batch_tasks envs urls) (\<lambda>i. finish_time (envs i))) st2")
  from batch_loop_zip_path [OF b] have z: "zip_path st3 = None"
    by (simp add: st2_def st1_def zf)
  from r l b have "st' = st3\<lparr>events := events st3 @ [Success_all_completed],
                          processing_complete := True\<rparr>"
    by (auto simp: run_batch_processor_def Let_def st2_def split: option.splits)
  with z show ?thesis by simp
qed

section \<open>The archive\<close>

text \<open>
  C9. Take the state when a batch has completed: \<open>processing_complete\<close> is set and no
  archive path is remembered (the flush at the start of the batch cleared it:
  \<open>start_processing_completed\<close>). When the
  screenshot directory has entries, any number of runs of the script, at least one, ends
  with no exception and with exactly one archive made in all: it is made from the entries
  of the screenshot directory at \<open>zip_files/screenshots.zip\<close>, its path is remembered,
  and every run offers that same file for download. When the screenshot directory has no
  entry, no run raises, each run shows the warning, no archive is made, no path is
  remembered, nothing is offered for download and the zip directory holds what it held.
\<close>

theorem archive_is_made_once_and_reused:
  assumes "processing_complete st" "zip_path st = None"
  shows "(dir_entries (fs st) SCREENSHOT_DIR \<noteq> {} \<longrightarrow>
           (\<exists>st'. reruns (Suc n) uploaded_file url_input st = Inr st'
              \<and> zip_path st' = Some ''zip_files/screenshots.zip''
              \<and> open_rb (fs st') ''zip_files/screenshots.zip''
                   = Inr (Archive (dir_entries (fs st) SCREENSHOT_DIR))
              \<and> archives_made (events st')
                   = archives_made (events st)
                     @ [(''zip_files/screenshots.zip'', dir_entries (fs st) SCREENSHOT_DIR)]
              \<and> downloads_offered (events st')
                   = downloads_offered (events st)
                     @ replicate (Suc n) ''zip_files/screenshots.zip''
              \<and> warnings_shown (events st') = warnings_shown (events st)))
       \<and> (dir_entries (fs st) SCREENSHOT_DIR = {} \<longrightarrow>
           (\<exists>st'. reruns n uploaded_file url_input st = Inr st'
              \<and> zip_path st' = None
              \<and> dir_entries (fs st') ZIP_DIR = dir_entries (fs st) ZIP_DIR
              \<and> archives_made (events st') = archives_made (events st)
              \<and> downloads_offered (events st') = downloads_offered (events st)
              \<and> warnings_shown (events st') = warnings_shown (events st) + n))"
proof (intro conjI impI)
  assume ne: "dir_entries (fs st) SCREENSHOT_DIR \<noteq> {}"
  from first_run_makes_archive [OF assms ne, of uploaded_file url_input]
  obtain st1 where r: "script_run uploaded_file url_input st = Inr st1"
    and p: "processing_complete st1" "zip_path st1 = Some ''zip_files/screenshots.zip''"
      "open_rb (fs st1) ''zip_files/screenshots.zip''
         = Inr (Archive (dir_entries (fs st) SCREENSHOT_DIR))"
    and e: "archives_made (events st1)
              = archives_made (events st)
                @ [(''zip_files/screenshots.zip'', dir_entries (fs st) SCREENSHOT_DIR)]"
      "downloads_offered (events st1)
         = downloads_offered (events st) @ [''zip_files/screenshots.zip'']"
      "warnings_shown (events st1) = warnings_shown (events st)"
    by blast
  from reruns_reuse_archive [OF p, of n uploaded_file url_input] obtain st' where
    "reruns n uploaded_file url_input st1 = Inr st'"
    "zip_path st' = Some ''zip_files/screenshots.zip''"
    "open_rb (fs st') ''zip_files/screenshots.zip''
       = Inr (Archive (dir_entries (fs st) SCREENSHOT_DIR))"
    "archives_made (events st') = archives_made (events st1)"
    "downloads_offered (events st')
       = downloads_offered (events st1) @ replicate n ''zip_files/screenshots.zip''"
    "warnings_shown (events st') = warnings_shown (events st1)"
    by blast
  with r e show "\<exists>st'. reruns (Suc n) uploaded_file url_input st = Inr st'
              \<and> zip_path st' = Some ''zip_files/screenshots.zip''
              \<and> open_rb (fs st') ''zip_files/screenshots.zip''
                   = Inr (Archive (dir_entries (fs st) SCREENSHOT_DIR))
              \<and> archives_made (events st')
                   = archives_made (events st)
                     @ [(''zip_files/screenshots.zip'', dir_entries (fs st) SCREENSHOT_DIR)]
              \<and> downloads_offered (events st')
                   = downloads_offered (events st)
                     @ replicate (Suc n) ''zip_files/screenshots.zip''
              \<and> warnings_shown (events st') = warnings_shown (events st)"
    by simp
next
  assume "dir_entries (fs st) SCREENSHOT_DIR = {}"
  from reruns_without_screenshots [OF assms this]
  show "\<exists>st'. reruns n uploaded_file url_input st = Inr st'
              \<and> zip_path st' = None
              \<and> dir_entries (fs st') ZIP_DIR = dir_entries (fs st) ZIP_DIR
              \<and> archives_made (events st') = archives_made (events st)
              \<and> downloads_offered (events st') = downloads_offered (events st)
              \<and> warnings_shown (events st') = warnings_shown (events st) + n"
    by blast
qed

theorem archive_is_made_once_and_reused_witness:
  "(\<exists>st'. reruns 2 None '''' (after_batch (write_artifact empty_dirs ''1_a.com.png'')) = Inr st'
      \<and> zip_path st' = Some ''zip_files/screenshots.zip''
      \<and> open_rb (fs st') ''zip_files/screenshots.zip'' = Inr (Archive {''1_a.com.png''})
      \<and> archives_made (events st') = [(''zip_files/screenshots.zip'', {''1_a.com.png''})]
      \<and> downloads_offered (events st')
           = [''zip_files/screenshots.zip'', ''zip_files/screenshots.zip''])
   \<and> (\<exists>st'. reruns 2 None '''' (after_batch empty_dirs) = Inr st'
      \<and> zip_path st' = None \<and> dir_entries (fs st') ZIP_DIR = {}
      \<and> archives_made (events st') = [] \<and> downloads_offered (events st') = []
      \<and> warnings_shown (events st') = 2)"
proof -
  let ?a = "after_batch (write_artifact empty_dirs ''1_a.com.png'')"
  let ?b = "after_batch empty_dirs"
  have a: "processing_complete ?a" "zip_path ?a = None" "events ?a = []"
    "dir_entries (fs ?a) SCREENSHOT_DIR = {''1_a.com.png''}"
    by (simp_all add: after_batch_def initial_state_def write_artifact_def empty_dirs_def
        dir_entries_def)
  have b: "processing_complete ?b" "zip_path ?b = None" "events ?b = []"
    "dir_entries (fs ?b) SCREENSHOT_DIR = {}" "dir_entries (fs ?b) ZIP_DIR = {}"
    using dirs_differ
    by (simp_all add: after_batch_def initial_state_def empty_dirs_def dir_entries_def)
  have two: "Suc 1 = 2" by simp
  from archive_is_made_once_and_reused [OF a(1,2), of 1 None "''''"] a(3,4)
  have 1: "\<exists>st'. reruns 2 None '''' ?a = Inr st'
      \<and> zip_path st' = Some ''zip_files/screenshots.zip''
      \<and> open_rb (fs st') ''zip_files/screenshots.zip'' = Inr (Archive {''1_a.com.png''})
      \<and> archives_made (events st') = [(''zip_files/screenshots.zip'', {''1_a.com.png''})]
      \<and> downloads_offered (events st')
           = [''zip_files/screenshots.zip'', ''zip_files/screenshots.zip'']"
    by (auto simp add: two numeral_2_eq_2)
  from archive_is_made_once_and_reused [OF b(1,2), of 2 None "''''"] b(3,4,5)
  have 2: "\<exists>st'. reruns 2 None '''' ?b = Inr st'
      \<and> zip_path st' = None \<and> dir_entries (fs st') ZIP_DIR = {}
      \<and> archives_made (events st') = [] \<and> downloads_offered (events st') = []
      \<and> warnings_shown (events st') = 2"
    by (simp add: numeral_2_eq_2 del: reruns.simps)
  from 1 2 show ?thesis by blast
qed

section \<open>Facts about the loop of the settling strategy\<close>

lemma scroll_loop_bound_aux:
  "scroll_loop P p n prev s = (tr, r) \<Longrightarrow> length (scrolls tr) \<le> n"
  by (induction n arbitrary: prev s tr r)
     (fastforce simp: Let_def split: sum.splits prod.splits if_splits)+

lemma scroll_loop_bound: "length (scrolls (fst (scroll_loop P p n prev s))) \<le> n"
  using scroll_loop_bound_aux [of P p n prev s] by (cases "scroll_loop P p n prev s") simp

lemma scroll_loop_pauses_aux:
  "scroll_loop P p n prev s = (tr, r) \<Longrightarrow> set (pauses tr) \<subseteq> {p}"
  by (induction n arbitrary: prev s tr r)
     (fastforce simp: Let_def split: sum.splits prod.splits if_splits)+

lemma scroll_loop_pauses: "set (pauses (fst (scroll_loop P p n prev s))) \<subseteq> {p}"
  using scroll_loop_pauses_aux [of P p n prev s] by (cases "scroll_loop P p n prev s") simp

lemma scroll_loop_shape:
  "scroll_loop P p n prev s = (tr, Inr s') \<Longrightarrow>
   tr = rounds p (zip (scrolls tr) (measurements tr))
   \<and> length (measurements tr) = length (scrolls tr)
   \<and> pauses tr = replicate (length (scrolls tr)) p"
  by (induction n arbitrary: prev s tr)
     (auto simp: Let_def rounds_def split: sum.splits prod.splits if_splits)

lemma scroll_loop_amounts:
  "scroll_loop P p n prev s = (tr, Inr s') \<Longrightarrow> body_scrollHeight P s = Inr prev \<Longrightarrow>
   scrolls tr = butlast (prev # measurements tr)"
proof (induction n arbitrary: prev s tr)
  case 0
  then show ?case by simp
next
  case (Suc n)
  let ?s2 = "after_sleep P p (window_scrollBy P prev s)"
  from Suc.prems obtain new where new: "body_scrollHeight P ?s2 = Inr new"
    by (auto simp: Let_def split: sum.splits)
  show ?case
  proof (cases "new = prev")
    case True
    with Suc.prems new show ?thesis by (auto simp: Let_def)
  next
    case False
    with Suc.prems new obtain tr' where
      tr': "scroll_loop P p n new ?s2 = (tr', Inr s')"
      and tr: "tr = [ScrolledBy prev, Slept p, Measured new] @ tr'"
      by (auto simp: Let_def split: prod.splits)
    from Suc.IH [OF tr' new] have "scrolls tr' = butlast (new # measurements tr')" .
    with tr show ?thesis by simp
  qed
qed

lemma scroll_loop_stop:
  "scroll_loop P p n prev s = (tr, Inr s') \<Longrightarrow>
   distinct_adj (butlast (prev # measurements tr))
   \<and> (length (scrolls tr) < n \<longrightarrow>
        measurements tr \<noteq> []
        \<and> last (measurements tr) = last (butlast (prev # measurements tr)))"
proof (induction n arbitrary: prev s tr)
  case 0
  then show ?case by simp
next
  case (Suc n)
  from Suc.prems obtain dy where dy: "body_scrollHeight P s = Inr dy"
    by (auto split: sum.splits)
  let ?s2 = "after_sleep P p (window_scrollBy P dy s)"
  from Suc.prems dy obtain new where new: "body_scrollHeight P ?s2 = Inr new"
    by (auto simp: Let_def split: sum.splits)
  show ?case
  proof (cases "new = prev")
    case True
    with Suc.prems dy new show ?thesis by (auto simp: Let_def)
  next
    case False
    with Suc.prems dy new obtain tr' where
      tr': "scroll_loop P p n new ?s2 = (tr', Inr s')"
      and tr: "tr = [ScrolledBy dy, Slept p, Measured new] @ tr'"
      by (auto simp: Let_def split: prod.splits)
    from Suc.IH [OF tr'] have ih: "distinct_adj (butlast (new # measurements tr'))"
      "length (scrolls tr') < n \<longrightarrow> measurements tr' \<noteq> []
         \<and> last (measurements tr') = last (butlast (new # measurements tr'))"
      by blast+
    have m: "measurements tr = new # measurements tr'" "scrolls tr = dy # scrolls tr'"
      using tr by simp_all
    have a: "distinct_adj (butlast (prev # measurements tr))"
      using ih(1) False by (cases "measurements tr'") (auto simp: m distinct_adj_Cons)
    have b: "measurements tr \<noteq> []
        \<and> last (measurements tr) = last (butlast (prev # measurements tr))"
      if "length (scrolls tr) < Suc n"
    proof -
      from that have "length (scrolls tr') < n" by (simp add: m)
      with ih(2) have "measurements tr' \<noteq> []"
        "last (measurements tr') = last (butlast (new # measurements tr'))" by blast+
      then show ?thesis by (simp add: m)
    qed
    from a b show ?thesis by blast
  qed
qed

lemma scroll_loop_same_height:
  assumes "\<forall>t. body_scrollHeight P t = Inr h"
  shows "scroll_loop P p (Suc n) h s
         = ([ScrolledBy h, Slept p, Measured h],
            Inr (after_sleep P p (window_scrollBy P h s)))"
  using assms by (simp add: Let_def)

section \<open>Facts about the settling strategy\<close>

lemma settle_cases:
  "settle P s =
     (case body_scrollHeight P s of
        Inl e \<Rightarrow> ([], Inl e)
      | Inr h0 \<Rightarrow> (Measured h0 # fst (scroll_loop P 1 30 h0 s), snd (scroll_loop P 1 30 h0 s)))"
  by (simp add: settle_def scroll_to_bottom_def split: sum.splits prod.splits)

lemma settle_bounds:
  "length (scrolls (fst (settle P s))) \<le> 30 \<and> set (pauses (fst (settle P s))) \<subseteq> {1}"
  using scroll_loop_bound [of P 1 30 _ s] scroll_loop_pauses [of P 1 30 _ s]
  by (auto simp: settle_cases split: sum.splits)

lemma settle_initial:
  "body_scrollHeight P s = Inr h0 \<Longrightarrow>
   take 1 (measurements (fst (settle P s))) = [h0] \<and> hd (fst (settle P s)) = Measured h0"
  by (simp add: settle_cases)

lemma settle_returns:
  assumes "settle P s = (tr, Inr s')"
  shows "tr = Measured (hd (measurements tr)) # rounds 1 (zip (scrolls tr) (tl (measurements tr)))
         \<and> length (measurements tr) = Suc (length (scrolls tr))
         \<and> pauses tr = replicate (length (scrolls tr)) 1
         \<and> scrolls tr = butlast (measurements tr)
         \<and> distinct_adj (butlast (measurements tr))
         \<and> (length (scrolls tr) < 30 \<longrightarrow>
              last (measurements tr) = last (butlast (measurements tr)))"
proof -
  from assms obtain h0 where h0: "body_scrollHeight P s = Inr h0"
    by (auto simp: settle_cases split: sum.splits)
  obtain tr' r where l: "scroll_loop P 1 30 h0 s = (tr', r)"
    by (cases "scroll_loop P 1 30 h0 s")
  with assms h0 have tr: "tr = Measured h0 # tr'" and r: "r = Inr s'"
    by (simp_all add: settle_cases)
  note l = l [unfolded r]
  from scroll_loop_shape [OF l] have shape: "tr' = rounds 1 (zip (scrolls tr') (measurements tr'))"
    and len: "length (measurements tr') = length (scrolls tr')"
    and pause: "pauses tr' = replicate (length (scrolls tr')) 1"
    by blast+
  have "Measured h0 # tr' = Measured h0 # rounds 1 (zip (scrolls tr') (measurements tr'))"
    by (rule arg_cong [where f = "\<lambda>x. Measured h0 # x", OF shape])
  moreover have "hd (measurements tr) = h0" "scrolls tr = scrolls tr'"
    "tl (measurements tr) = measurements tr'"
    unfolding tr by simp_all
  ultimately
  have 1: "tr = Measured (hd (measurements tr)) # rounds 1 (zip (scrolls tr) (tl (measurements tr)))"
    unfolding tr by (simp only:)
  have c1: "length (measurements tr) = Suc (length (scrolls tr))"
    unfolding tr using len by simp
  have c2: "pauses tr = replicate (length (scrolls tr)) 1"
    unfolding tr using pause by simp
  have c3: "scrolls tr = butlast (measurements tr)"
    unfolding tr using scroll_loop_amounts [OF l h0] by simp
  have c4: "distinct_adj (butlast (measurements tr))"
    unfolding tr using scroll_loop_stop [OF l] by simp
  have c5: "length (scrolls tr) < 30 \<longrightarrow>
              last (measurements tr) = last (butlast (measurements tr))"
    unfolding tr using scroll_loop_stop [OF l] by simp
  note 2 = conjI [OF c1 conjI [OF c2 conjI [OF c3 conjI [OF c4 c5]]]]
  from 1 2 show ?thesis by (rule conjI)
qed

lemma settle_same_height:
  assumes "\<forall>t. body_scrollHeight P t = Inr h"
  shows "settle P s = ([Measured h, ScrolledBy h, Slept 1, Measured h],
                       Inr (after_sleep P 1 (window_scrollBy P h s)))"
proof -
  have "(30::nat) = Suc 29" by simp
  then have "scroll_loop P 1 30 h s
             = ([ScrolledBy h, Slept 1, Measured h],
                Inr (after_sleep P 1 (window_scrollBy P h s)))"
    using scroll_loop_same_height [OF assms, of 1 29 s] by simp
  then show ?thesis using assms by (simp add: settle_cases)
qed

lemma scroll_loop_shrinking:
  "scroll_loop shrinking_page 1 (Suc (Suc n)) 100 0 =
     ([ScrolledBy 100, Slept 1, Measured 50, ScrolledBy 50, Slept 1, Measured 50], Inr 2)"
  by (simp add: shrinking_page_def timed_page_def)

lemma settle_shrinking:
  "settle shrinking_page 0 =
     ([Measured 100, ScrolledBy 100, Slept 1, Measured 50, ScrolledBy 50, Slept 1, Measured 50],
      Inr 2)"
proof -
  have "(30::nat) = Suc (Suc 28)" by simp
  then have "scroll_loop shrinking_page 1 30 100 0 =
     ([ScrolledBy 100, Slept 1, Measured 50, ScrolledBy 50, Slept 1, Measured 50], Inr 2)"
    using scroll_loop_shrinking [of 28] by simp
  moreover have "body_scrollHeight shrinking_page 0 = Inr 100"
    by (simp add: shrinking_page_def timed_page_def)
  ultimately show ?thesis by (simp add: settle_cases)
qed

section \<open>The settling strategy on any page\<close>

text \<open>
  C4, as amended. On every page the strategy makes at most 30 iterations and every pause
  is of one second; the first thing it does is to measure the height. When no evaluation
  in the page raises, the trace is the first measurement followed by the iterations, each
  one a scroll, a pause of one second and a measurement, in this order; the increment of
  each scroll is the height measured just before it (the full scrollable height of the
  page, not the height of the viewport); no two consecutive measurements before the last
  are equal, and when fewer than 30 iterations were made the last two measurements are
  equal. On a page whose height is always the same the strategy ends after the first
  comparison: one scroll, one pause, one measurement.
\<close>

theorem settling_strategy:
  "(case settle P s of
      (tr, r) \<Rightarrow>
        length (scrolls tr) \<le> 30
        \<and> set (pauses tr) \<subseteq> {1}
        \<and> (\<forall>h0. body_scrollHeight P s = Inr h0 \<longrightarrow>
              take 1 (measurements tr) = [h0] \<and> hd tr = Measured h0)
        \<and> (\<forall>s'. r = Inr s' \<longrightarrow>
              tr = Measured (hd (measurements tr))
                     # rounds 1 (zip (scrolls tr) (tl (measurements tr)))
              \<and> length (measurements tr) = Suc (length (scrolls tr))
              \<and> pauses tr = replicate (length (scrolls tr)) 1
              \<and> scrolls tr = butlast (measurements tr)
              \<and> distinct_adj (butlast (measurements tr))
              \<and> (length (scrolls tr) < 30 \<longrightarrow>
                   last (measurements tr) = last (butlast (measurements tr)))))
   \<and> ((\<forall>t. body_scrollHeight P t = Inr h) \<longrightarrow>
        settle P s = ([Measured h, ScrolledBy h, Slept 1, Measured h],
                      Inr (after_sleep P 1 (window_scrollBy P h s))))"
proof -
  obtain tr r where e: "settle P s = (tr, r)" by (cases "settle P s")
  have 1: "length (scrolls tr) \<le> 30" and 2: "set (pauses tr) \<subseteq> {1}"
    using settle_bounds [of P s] e by simp_all
  have 3: "\<forall>h0. body_scrollHeight P s = Inr h0 \<longrightarrow>
              take 1 (measurements tr) = [h0] \<and> hd tr = Measured h0"
  proof (intro allI impI)
    fix h0 assume "body_scrollHeight P s = Inr h0"
    from settle_initial [OF this] e
    show "take 1 (measurements tr) = [h0] \<and> hd tr = Measured h0" by simp
  qed
  have 4: "\<forall>s'. r = Inr s' \<longrightarrow>
              tr = Measured (hd (measurements tr))
                     # rounds 1 (zip (scrolls tr) (tl (measurements tr)))
              \<and> length (measurements tr) = Suc (length (scrolls tr))
              \<and> pauses tr = replicate (length (scrolls tr)) 1
              \<and> scrolls tr = butlast (measurements tr)
              \<and> distinct_adj (butlast (measurements tr))
              \<and> (length (scrolls tr) < 30 \<longrightarrow>
                   last (measurements tr) = last (butlast (measurements tr)))"
  proof (intro allI impI)
    fix s' assume "r = Inr s'"
    with e have "settle P s = (tr, Inr s')" by simp
    then show "tr = Measured (hd (measurements tr))
                     # rounds 1 (zip (scrolls tr) (tl (measurements tr)))
              \<and> length (measurements tr) = Suc (length (scrolls tr))
              \<and> pauses tr = replicate (length (scrolls tr)) 1
              \<and> scrolls tr = butlast (measurements tr)
              \<and> distinct_adj (butlast (measurements tr))
              \<and> (length (scrolls tr) < 30 \<longrightarrow>
                   last (measurements tr) = last (butlast (measurements tr)))"
      by (rule settle_returns)
  qed
  have 5: "(\<forall>t. body_scrollHeight P t = Inr h) \<longrightarrow>
        settle P s = ([Measured h, ScrolledBy h, Slept 1, Measured h],
                      Inr (after_sleep P 1 (window_scrollBy P h s)))"
    by (intro impI) (rule settle_same_height)
  show ?thesis
    unfolding e prod.case
    by (rule conjI [OF conjI [OF 1 conjI [OF 2 conjI [OF 3 4]]] 5 [unfolded e]])
qed

theorem settling_strategy_witness:
  "settle shrinking_page 0 =
     ([Measured 100, ScrolledBy 100, Slept 1, Measured 50, ScrolledBy 50, Slept 1, Measured 50],
      Inr 2)
   \<and> body_scrollHeight shrinking_page 0 = Inr 100
   \<and> take 1 (measurements (fst (settle shrinking_page 0))) = [100]
   \<and> length (scrolls (fst (settle shrinking_page 0))) < 30
   \<and> scrolls (fst (settle shrinking_page 0)) = butlast (measurements (fst (settle shrinking_page 0)))
   \<and> last (measurements (fst (settle shrinking_page 0)))
        = last (butlast (measurements (fst (settle shrinking_page 0))))
   \<and> settle (constant_page 1080) 0
        = ([Measured 1080, ScrolledBy 1080, Slept 1, Measured 1080], Inr 1)"
proof -
  let ?T = "[Measured 100, ScrolledBy 100, Slept 1, Measured 50, ScrolledBy 50, Slept 1,
             Measured 50]"
  have c: "\<forall>t. body_scrollHeight (constant_page 1080) t = Inr 1080"
    by (simp add: constant_page_def timed_page_def)
  have a: "after_sleep (constant_page 1080) 1 (window_scrollBy (constant_page 1080) 1080 0) = 1"
    by (simp add: constant_page_def timed_page_def)
  have b: "body_scrollHeight shrinking_page 0 = Inr 100"
    by (simp add: shrinking_page_def timed_page_def)
  have f: "fst (settle shrinking_page 0) = ?T" by (simp add: settle_shrinking)
  note t = settling_strategy [of shrinking_page 0 0, THEN conjunct1,
      unfolded settle_shrinking prod.case]
  note t4 = t [THEN conjunct2, THEN conjunct2, THEN conjunct2,
      THEN spec [where x = "2::nat"], THEN mp, OF refl]
  note scroll = t4 [THEN conjunct2, THEN conjunct2, THEN conjunct2, THEN conjunct1]
  note stop = t4 [THEN conjunct2, THEN conjunct2, THEN conjunct2, THEN conjunct2,
      THEN conjunct2]
  have lt: "length (scrolls ?T) < 30" by simp
  note last_equal = stop [THEN mp, OF lt]
  note initial = t [THEN conjunct2, THEN conjunct2, THEN conjunct1,
      THEN spec [where x = "100::nat"], THEN mp, OF b, THEN conjunct1]
  note same = settling_strategy [of "constant_page 1080" 0 1080, THEN conjunct2, THEN mp, OF c,
      unfolded a]
  show ?thesis
    unfolding f
    by (intro conjI) (rule settle_shrinking b initial lt scroll last_equal same)+
qed

text \<open>
  C4 as stated fails in the increment: on a page of constant height 5000 the scroll is by
  5000, the scrollable height of the page, while the height of the viewport is 1080.
\<close>

theorem scroll_increment_is_not_the_viewport_height:
  "scrolls (fst (settle (constant_page 5000) 0)) = [5000]
   \<and> viewport_height = 1080
   \<and> scrolls (fst (settle (constant_page 5000) 0)) \<noteq> [viewport_height]"
  by (simp add: settle_constant viewport_height_def)

section \<open>The settling strategy on a page that shrinks\<close>

text \<open>
  C5, as amended. The strategy stops before the thirtieth iteration only when two
  consecutive measurements are equal. A measured height that is strictly smaller than
  the one before does not stop it: when iteration \<open>k\<close>, with \<open>k\<close> below 30, measures
  a smaller height than the measurement before, another iteration follows.
\<close>

theorem smaller_height_does_not_stop:
  assumes "settle P s = (tr, Inr s')"
  shows "(\<forall>k. 0 < k \<and> k < length (measurements tr) \<and> k < 30
              \<and> measurements tr ! k < measurements tr ! (k - 1)
            \<longrightarrow> k < length (scrolls tr))
         \<and> (length (scrolls tr) < 30 \<longrightarrow>
              last (measurements tr) = last (butlast (measurements tr)))"
proof -
  let ?M = "measurements tr"
  note r = settle_returns [OF assms]
  from r have len: "length ?M = Suc (length (scrolls tr))" by blast
  from r have stop: "length (scrolls tr) < 30 \<longrightarrow> last ?M = last (butlast ?M)" by blast
  have "k < length (scrolls tr)"
    if k: "0 < k" "k < length ?M" "k < 30" "?M ! k < ?M ! (k - 1)" for k
  proof (rule ccontr)
    assume "\<not> k < length (scrolls tr)"
    with k(2) len have kl: "k = length (scrolls tr)" by simp
    with k(3) stop have eq: "last ?M = last (butlast ?M)" by simp
    have lb: "length (butlast ?M) = k" using len kl by simp
    have ne2: "butlast ?M \<noteq> []"
    proof
      assume "butlast ?M = []"
      then have "length (butlast ?M) = 0" by simp
      with lb k(1) show False by simp
    qed
    then have ne1: "?M \<noteq> []" by auto
    note ne = ne1 ne2
    have lm: "length ?M - 1 = k" using len kl by simp
    have "last ?M = ?M ! (length ?M - 1)" using ne(1) by (rule last_conv_nth)
    then have l1: "last ?M = ?M ! k" unfolding lm .
    have "last (butlast ?M) = butlast ?M ! (length (butlast ?M) - 1)"
      using ne(2) by (rule last_conv_nth)
    then have "last (butlast ?M) = butlast ?M ! (k - 1)" unfolding lb .
    moreover have "butlast ?M ! (k - 1) = ?M ! (k - 1)"
      using lb k(1) by (simp add: nth_butlast)
    ultimately have l2: "last (butlast ?M) = ?M ! (k - 1)" by simp
    note l1 l2
    with eq k(4) show False by simp
  qed
  with stop show ?thesis by blast
qed

theorem smaller_height_does_not_stop_witness:
  "settle shrinking_page 0 =
     ([Measured 100, ScrolledBy 100, Slept 1, Measured 50, ScrolledBy 50, Slept 1, Measured 50],
      Inr 2)
   \<and> measurements [Measured 100, ScrolledBy 100, Slept 1, Measured 50, ScrolledBy 50, Slept 1,
        Measured 50] ! 1
       < measurements [Measured 100, ScrolledBy 100, Slept 1, Measured 50, ScrolledBy 50,
           Slept 1, Measured 50] ! (1 - 1)
   \<and> (1::nat) < length (scrolls [Measured 100, ScrolledBy 100, Slept 1, Measured 50,
        ScrolledBy 50, Slept 1, Measured 50])"
proof -
  let ?T = "[Measured 100, ScrolledBy 100, Slept 1, Measured 50, ScrolledBy 50, Slept 1,
             Measured 50]"
  have p: "0 < (1::nat) \<and> 1 < length (measurements ?T) \<and> (1::nat) < 30
           \<and> measurements ?T ! 1 < measurements ?T ! (1 - 1)"
    by simp
  note again = smaller_height_does_not_stop [OF settle_shrinking, THEN conjunct1,
      THEN spec [where x = "1::nat"], THEN mp, OF p]
  from p have smaller: "measurements ?T ! 1 < measurements ?T ! (1 - 1)" by (elim conjE)
  show ?thesis
    by (intro conjI) (rule settle_shrinking smaller again)+
qed

text \<open>
  C5 as stated fails: on a page that measures 100, then 50, then 50, the first iteration
  measures the smaller height 50 and the strategy does not stop there; it scrolls a
  second time and stops when the height 50 is measured again.
\<close>

theorem shrinking_page_is_scrolled_again:
  "measurements (fst (settle shrinking_page 0)) = [100, 50, 50]
   \<and> measurements (fst (settle shrinking_page 0)) ! 1 < measurements (fst (settle shrinking_page 0)) ! 0
   \<and> length (scrolls (fst (settle shrinking_page 0))) = 2"
  by (simp add: settle_shrinking)

end
